theory Spec2Isabelle
  imports Complex_Main "HOL-Library.Log_Nat"
begin

unbundle bit_operations_syntax

section \<open>Python values and built-ins used by the program\<close>

text \<open>
  Python \<open>bytes\<close> and ASCII \<open>str\<close> values are both modelled as \<open>string\<close>
  (a list of 8-bit characters); Python's unbounded integers are \<open>int\<close>, counters that
  start at zero and only grow are \<open>nat\<close>. Every exception the program can raise is a
  value of \<open>error\<close>; a function that can raise returns \<open>error + 'a\<close>.
\<close>

datatype error =
    MathDomainError
  | MaxIdsTooLarge
  | NoCalculators nat
  | KeyError
  | TypeError
  | OverflowError
  | InputEncoding
  | InvalidHex
  | SymbolTooLong nat
  | TooManySymbols
  | UnresolvableConflicts nat

text \<open>\<open>int.bit_length()\<close>: the number of bits of the absolute value.\<close>

definition py_bit_length :: "int \<Rightarrow> nat" where
  "py_bit_length x = floorlog 2 (nat \<bar>x\<bar>)"

text \<open>
  \<open>int(math.log2(x))\<close>: \<open>math.log2\<close> raises on \<open>x \<le> 0\<close>; for a positive integer the
  truncated logarithm is one less than the number of bits. (The program computes it in
  double precision, which is exact on the range where the constructor does not reject
  the argument anyway.)
\<close>

definition py_int_log2 :: "int \<Rightarrow> error + nat" where
  "py_int_log2 x = (if x \<le> 0 then Inl MathDomainError else Inr (floorlog 2 (nat x) - 1))"

text \<open>A \<open>dict\<close> keeps insertion order: an association list, updated in place.\<close>

fun dict_set :: "'k \<Rightarrow> 'v \<Rightarrow> ('k \<times> 'v) list \<Rightarrow> ('k \<times> 'v) list" where
  "dict_set k v [] = [(k, v)]"
| "dict_set k v ((k', v') # d) = (if k' = k then (k', v) # d else (k', v') # dict_set k v d)"

definition dict_get :: "('k \<times> 'v) list \<Rightarrow> 'k \<Rightarrow> error + 'v" where
  "dict_get d k = (case map_of d k of None \<Rightarrow> Inl KeyError | Some v \<Rightarrow> Inr v)"

text \<open>\<open>defaultdict(list)\<close>: \<open>d[k].append(v)\<close>.\<close>

fun dd_append :: "'k \<Rightarrow> 'v \<Rightarrow> ('k \<times> 'v list) list \<Rightarrow> ('k \<times> 'v list) list" where
  "dd_append k v [] = [(k, [v])]"
| "dd_append k v ((k', vs) # d) =
     (if k' = k then (k', vs @ [v]) # d else (k', vs) # dd_append k v d)"

text \<open>\<open>list.index(x)\<close>; \<open>None\<close> stands for the \<open>ValueError\<close> of a missing element.\<close>

fun list_index :: "'a list \<Rightarrow> 'a \<Rightarrow> nat option" where
  "list_index [] x = None"
| "list_index (y # ys) x = (if y = x then Some 0 else map_option Suc (list_index ys x))"

text \<open>\<open>int.from_bytes(b, 'little')\<close> and \<open>n.to_bytes(len, 'little')\<close>.\<close>

fun from_bytes_little :: "string \<Rightarrow> nat" where
  "from_bytes_little [] = 0"
| "from_bytes_little (c # cs) = of_char c + 256 * from_bytes_little cs"

fun le_bytes :: "nat \<Rightarrow> nat \<Rightarrow> string" where
  "le_bytes 0 n = []"
| "le_bytes (Suc k) n = char_of (n mod 256) # le_bytes k (n div 256)"

definition to_bytes_little :: "nat \<Rightarrow> nat \<Rightarrow> error + string" where
  "to_bytes_little n len = (if n < 256 ^ len then Inr (le_bytes len n) else Inl OverflowError)"

text \<open>
  Slices with non-negative bounds: \<open>b[i:j]\<close> clamps both bounds to the length, and
  \<open>b[i:j] = v\<close> replaces the clamped range, so a range that starts at or beyond the end
  appends \<open>v\<close>.
\<close>

definition slice_bounds :: "nat \<Rightarrow> nat \<Rightarrow> nat \<Rightarrow> nat \<times> nat" where
  "slice_bounds len i j = (let lo = min i len; hi = max lo (min j len) in (lo, hi))"

definition slice_get :: "'a list \<Rightarrow> nat \<Rightarrow> nat \<Rightarrow> 'a list" where
  "slice_get b i j = (case slice_bounds (length b) i j of (lo, hi) \<Rightarrow> take (hi - lo) (drop lo b))"

definition slice_assign :: "'a list \<Rightarrow> nat \<Rightarrow> nat \<Rightarrow> 'a list \<Rightarrow> 'a list" where
  "slice_assign b i j v = (case slice_bounds (length b) i j of (lo, hi) \<Rightarrow> take lo b @ v @ drop hi b)"

text \<open>\<open>str.strip()\<close> on an ASCII string: the whitespace characters are 9-13 and 28-32.\<close>

definition py_isspace :: "char \<Rightarrow> bool" where
  "py_isspace c = (let n = (of_char c :: nat) in (9 \<le> n \<and> n \<le> 13) \<or> (28 \<le> n \<and> n \<le> 32))"

definition strip :: "string \<Rightarrow> string" where
  "strip s = rev (dropWhile py_isspace (rev (dropWhile py_isspace s)))"

text \<open>
  \<open>bytes.fromhex\<close>: ASCII whitespace is skipped before each byte, and each byte is two
  adjacent hexadecimal digits; anything else is a \<open>ValueError\<close>.
\<close>

definition hex_digit :: "char \<Rightarrow> nat option" where
  "hex_digit c =
     (let n = (of_char c :: nat) in
      if 48 \<le> n \<and> n \<le> 57 then Some (n - 48)
      else if 97 \<le> n \<and> n \<le> 102 then Some (n - 87)
      else if 65 \<le> n \<and> n \<le> 70 then Some (n - 55)
      else None)"

definition hex_space :: "char \<Rightarrow> bool" where
  "hex_space c = (let n = (of_char c :: nat) in (9 \<le> n \<and> n \<le> 13) \<or> n = 32)"

fun fromhex :: "string \<Rightarrow> error + string" where
  "fromhex [] = Inr []"
| "fromhex [c] = (if hex_space c then Inr [] else Inl InvalidHex)"
| "fromhex (c # d # cs) =
     (if hex_space c then fromhex (d # cs)
      else case (hex_digit c, hex_digit d) of
             (Some hi, Some lo) \<Rightarrow>
               (case fromhex cs of Inl e \<Rightarrow> Inl e
                | Inr bs \<Rightarrow> Inr (char_of (16 * hi + lo) # bs))
           | _ \<Rightarrow> Inl InvalidHex)"

section \<open>The polynomial catalog (\<open>crc_polynomials.py\<close>)\<close>

text \<open>
  Each entry is \<open>(poly, name, reflect_in, xor_in, reflect_out, xor_out)\<close>; the catalog
  maps a width to a dictionary from name to entry, both in source order.
\<close>

type_synonym poly_entry = "int \<times> string \<times> bool \<times> int \<times> bool \<times> int"

definition KOOPMAN_POLYNOMIALS :: "(nat \<times> (string \<times> poly_entry) list) list" where
  "KOOPMAN_POLYNOMIALS = [
      (8,
       [(''CRC-8F-3'', (0x1cf, ''CRC-8F-3'', False, 0, False, 0)),
        (''CRC-8K-3'', (0x14d, ''CRC-8K-3'', False, 0, False, 0)),
        (''SAE-J1850'', (0x11d, ''SAE-J1850'', False, 0, False, 0)),
        (''CCITT-8'', (0x163, ''CCITT-8'', False, 0, False, 0)),
        (''CRC-8F-8'', (0x17f, ''CRC-8F-8'', False, 0, False, 0)),
        (''CRC-8-AUTOSAR'', (0x12f, ''CRC-8-AUTOSAR'', False, 0, False, 0)),
        (''CRC-8-Bluetooth'', (0x1a7, ''CRC-8-Bluetooth'', False, 0, False, 0)),
        (''WCDMA-8'', (0x19b, ''WCDMA-8'', False, 0, False, 0))     ]),
      (10,
       [(''CRC-10F-3'', (0x64f, ''CRC-10F-3'', False, 0, False, 0)),
        (''CRC-10F-8.1'', (0x5fb, ''CRC-10F-8.1'', False, 0, False, 0)),
        (''CRC-10F-6.1'', (0x58f, ''CRC-10F-6.1'', False, 0, False, 0)),
        (''FP-10'', (0x409, ''FP-10'', False, 0, False, 0)),
        (''CRC-10F-4.2'', (0x48f, ''CRC-10F-4.2'', False, 0, False, 0)),
        (''CRC-10F-8.2'', (0x5bd, ''CRC-10F-8.2'', False, 0, False, 0)),
        (''CRC-10-CDMA2000'', (0x7d9, ''CRC-10-CDMA2000'', False, 0, False, 0)),
        (''FOP-11'', (0x40d, ''FOP-11'', False, 0, False, 0))     ]),
      (12,
       [(''CRC-12F-3'', (0x130f, ''CRC-12F-3'', False, 0, False, 0)),
        (''CRC-12K-7'', (0x1467, ''CRC-12K-7'', False, 0, False, 0)),
        (''FP-12'', (0x1053, ''FP-12'', False, 0, False, 0)),
        (''CRC-12F-9'', (0x1bbf, ''CRC-12F-9'', False, 0, False, 0)),
        (''CRC-12K-5.2'', (0x17bf, ''CRC-12K-5.2'', False, 0, False, 0)),
        (''CRC-12F-6.1'', (0x107d, ''CRC-12F-6.1'', False, 0, False, 0)),
        (''CRC-12F-4.2'', (0x11e7, ''CRC-12F-4.2'', False, 0, False, 0)),
        (''CRC-12-CDMA2000'', (0x1f13, ''CRC-12-CDMA2000'', False, 0, False, 0))     ]),
      (14,
       [(''CRC-14F-3'', (0x4f9f, ''CRC-14F-3'', False, 0, False, 0)),
        (''CRC-14F-7'', (0x5153, ''CRC-14F-7'', False, 0, False, 0)),
        (''CRC-14F-11'', (0x6fdf, ''CRC-14F-11'', False, 0, False, 0)),
        (''FP-14'', (0x402b, ''FP-14'', False, 0, False, 0)),
        (''CRC-14F-10.1'', (0x7577, ''CRC-14F-10.1'', False, 0, False, 0)),
        (''CRC-14F-9'', (0x692f, ''CRC-14F-9'', False, 0, False, 0)),
        (''CRC-14K-3'', (0x4ed3, ''CRC-14K-3'', False, 0, False, 0)),
        (''CRC-14K-8'', (0x549f, ''CRC-14K-8'', False, 0, False, 0))     ]),
      (16,
       [(''CRC-16F-3'', (0x11b2b, ''CRC-16F-3'', False, 0, False, 0)),
        (''CRC-16F-11'', (0x1fb7f, ''CRC-16F-11'', False, 0, False, 0)),
        (''FP-16'', (0x1002d, ''FP-16'', False, 0, False, 0)),
        (''CRC-16K-3'', (0x18f57, ''CRC-16K-3'', False, 0, False, 0)),
        (''CRC-16F-10.1'', (0x12f3d, ''CRC-16F-10.1'', False, 0, False, 0)),
        (''CRC-16K-5'', (0x12c4f, ''CRC-16K-5'', False, 0, False, 0)),
        (''CRC-16-CDMA2000'', (0x1c867, ''CRC-16-CDMA2000'', False, 0, False, 0)),
        (''CRC-16-T10-DIF'', (0x18bb7, ''CRC-16-T10-DIF'', False, 0, False, 0))     ]),
      (18,
       [(''CRC-18K-3.1'', (0x472f3, ''CRC-18K-3.1'', False, 0, False, 0)),
        (''FP-18'', (0x40027, ''FP-18'', False, 0, False, 0)),
        (''CRC-18K-3.5'', (0x4717d, ''CRC-18K-3.5'', False, 0, False, 0)),
        (''CRC-18K-3.6'', (0x5a13f, ''CRC-18K-3.6'', False, 0, False, 0)),
        (''CRC-18K-3.4'', (0x43757, ''CRC-18K-3.4'', False, 0, False, 0)),
        (''CRC-18K-3.2'', (0x57dad, ''CRC-18K-3.2'', False, 0, False, 0)),
        (''CRC-18K-3.3'', (0x5dc93, ''CRC-18K-3.3'', False, 0, False, 0)),
        (''CRC-18K-11'', (0x4d47b, ''CRC-18K-11'', False, 0, False, 0))     ]),
      (20,
       [(''CRC-20K-3.1'', (0x16b04f, ''CRC-20K-3.1'', False, 0, False, 0)),
        (''CRC-20K-3.5'', (0x168d6f, ''CRC-20K-3.5'', False, 0, False, 0)),
        (''CRC-20K-3.7'', (0x189b0f, ''CRC-20K-3.7'', False, 0, False, 0)),
        (''CRC-20K-3.2'', (0x15eadf, ''CRC-20K-3.2'', False, 0, False, 0)),
        (''CRC-20K-3.3'', (0x19bdf3, ''CRC-20K-3.3'', False, 0, False, 0)),
        (''CRC-20K-3.6'', (0x174497, ''CRC-20K-3.6'', False, 0, False, 0)),
        (''CRC-20K-3.8'', (0x15f9b7, ''CRC-20K-3.8'', False, 0, False, 0)),
        (''CRC-20K-3.4'', (0x151193, ''CRC-20K-3.4'', False, 0, False, 0))     ]),
      (22,
       [(''CRC-22K-3.1'', (0x611fa7, ''CRC-22K-3.1'', False, 0, False, 0)),
        (''CRC-22K-3.5'', (0x6dc801, ''CRC-22K-3.5'', False, 0, False, 0)),
        (''CRC-22K-3.7'', (0x529aa9, ''CRC-22K-3.7'', False, 0, False, 0)),
        (''CRC-22K-3.10'', (0x722bd3, ''CRC-22K-3.10'', False, 0, False, 0)),
        (''CRC-22K-3.9'', (0x4e536b, ''CRC-22K-3.9'', False, 0, False, 0)),
        (''CRC-22K-3.2'', (0x77862d, ''CRC-22K-3.2'', False, 0, False, 0)),
        (''CRC-22K-3.4'', (0x7df163, ''CRC-22K-3.4'', False, 0, False, 0)),
        (''CRC-22K-3.3'', (0x4bdefb, ''CRC-22K-3.3'', False, 0, False, 0))     ]),
      (24,
       [(''CRC-24K-3.1'', (0x100001b, ''CRC-24K-3.1'', False, 0, False, 0)),
        (''CRC-24K-3.2'', (0x11f21c7, ''CRC-24K-3.2'', False, 0, False, 0)),
        (''CRC-24K-3.8'', (0x17b49ab, ''CRC-24K-3.8'', False, 0, False, 0)),
        (''CRC-24K-3.3'', (0x127969f, ''CRC-24K-3.3'', False, 0, False, 0)),
        (''CRC-24K-3.7'', (0x16ebd57, ''CRC-24K-3.7'', False, 0, False, 0)),
        (''CRC-24K-3.6'', (0x12826ad, ''CRC-24K-3.6'', False, 0, False, 0)),
        (''CRC-24K-3.9'', (0x14e6b4f, ''CRC-24K-3.9'', False, 0, False, 0)),
        (''CRC-24K-3.10'', (0x170ea2b, ''CRC-24K-3.10'', False, 0, False, 0))     ]),
      (26,
       [(''CRC-26K-3.1'', (0x67833df, ''CRC-26K-3.1'', False, 0, False, 0)),
        (''CRC-26K-3.6'', (0x74cdc9f, ''CRC-26K-3.6'', False, 0, False, 0)),
        (''CRC-26K-3.11'', (0x4fd6f67, ''CRC-26K-3.11'', False, 0, False, 0)),
        (''CRC-26K-3.7'', (0x52145f5, ''CRC-26K-3.7'', False, 0, False, 0)),
        (''CRC-26K-3.2'', (0x6c95597, ''CRC-26K-3.2'', False, 0, False, 0)),
        (''CRC-26K-3.5'', (0x76c28cf, ''CRC-26K-3.5'', False, 0, False, 0)),
        (''CRC-26K-3.12'', (0x7d32257, ''CRC-26K-3.12'', False, 0, False, 0)),
        (''CRC-26K-3.4'', (0x529ef3d, ''CRC-26K-3.4'', False, 0, False, 0))     ]),
      (28,
       [(''CRC-28K-3.1'', (0x123b83c7, ''CRC-28K-3.1'', False, 0, False, 0)),
        (''CRC-28K-3.5'', (0x102c41cb, ''CRC-28K-3.5'', False, 0, False, 0)),
        (''CRC-28K-3.4'', (0x17a0e8a7, ''CRC-28K-3.4'', False, 0, False, 0)),
        (''CRC-28K-3.9'', (0x19ed232f, ''CRC-28K-3.9'', False, 0, False, 0)),
        (''CRC-28K-3.2'', (0x11747ad7, ''CRC-28K-3.2'', False, 0, False, 0)),
        (''CRC-28K-3.8'', (0x112a0cbd, ''CRC-28K-3.8'', False, 0, False, 0)),
        (''CRC-28K-3.11'', (0x10d6cab9, ''CRC-28K-3.11'', False, 0, False, 0)),
        (''CRC-28K-3.10'', (0x169d901f, ''CRC-28K-3.10'', False, 0, False, 0))     ]),
      (30,
       [(''CRC-30K-3.1'', (0x6268545f, ''CRC-30K-3.1'', False, 0, False, 0)),
        (''CRC-30K-3.3'', (0x54b7233b, ''CRC-30K-3.3'', False, 0, False, 0)),
        (''CRC-30K-3.11'', (0x68a55347, ''CRC-30K-3.11'', False, 0, False, 0)),
        (''CRC-30K-3.8'', (0x41667891, ''CRC-30K-3.8'', False, 0, False, 0)),
        (''CRC-30K-3.9'', (0x4922d0ab, ''CRC-30K-3.9'', False, 0, False, 0)),
        (''CRC-30K-3.2'', (0x6220e663, ''CRC-30K-3.2'', False, 0, False, 0)),
        (''CRC-30K-3.13'', (0x512ff0cb, ''CRC-30K-3.13'', False, 0, False, 0)),
        (''CRC-30K-3.12'', (0x46d305c7, ''CRC-30K-3.12'', False, 0, False, 0))     ])
   ]"

text \<open>
  \<open>get_poly_index\<close>: the position of the name among the keys of the first group that
  has it. When no group has it the loop ends and the function returns \<open>None\<close>
  (\<open>Inr None\<close>); nothing is raised.
\<close>

fun get_poly_index_groups :: "(string \<times> poly_entry) list list \<Rightarrow> string \<Rightarrow> error + nat option" where
  "get_poly_index_groups [] p = Inr None"
| "get_poly_index_groups (grp # grps) p =
     (if p \<in> set (map fst grp)
      then (case list_index (map fst grp) p of None \<Rightarrow> Inl KeyError | Some i \<Rightarrow> Inr (Some i))
      else get_poly_index_groups grps p)"

definition get_poly_index :: "string \<Rightarrow> error + nat option" where
  "get_poly_index p = get_poly_index_groups (map snd KOOPMAN_POLYNOMIALS) p"

section \<open>The CRC engine\<close>

record crc =
  width :: nat
  poly :: int
  reflect_in :: bool
  xor_in :: int
  reflect_out :: bool
  xor_out :: int

text \<open>
  Modelled from the spec: \<open>pycrc.algorithms.Crc.table_driven\<close> is a third-party library
  routine that is not among the sources. Section 4.B of the specification gives the
  bit-serial computation it must agree with: the register starts at \<open>xor_in\<close>, every
  input byte (bit-reflected when \<open>reflect_in\<close>) is processed most significant bit
  first, the generator is XORed in whenever the bit leaving the top of the register
  (combined with the incoming bit) is 1, the register is masked to \<open>width\<close> bits, and the
  result is reflected when \<open>reflect_out\<close> and XORed with \<open>xor_out\<close>.
\<close>

fun reflect_bits :: "int \<Rightarrow> nat \<Rightarrow> int" where
  "reflect_bits d 0 = 0"
| "reflect_bits d (Suc n) = push_bit n (d AND 1) OR reflect_bits (drop_bit 1 d) n"

definition crc_mask :: "crc \<Rightarrow> int" where
  "crc_mask c = 2 ^ width c - 1"

definition crc_step :: "crc \<Rightarrow> bool \<Rightarrow> int \<Rightarrow> int" where
  "crc_step c b reg =
     (let top = bit reg (width c - 1);
          reg' = push_bit 1 reg AND crc_mask c
      in if top \<noteq> b then reg' XOR (poly c AND crc_mask c) else reg')"

definition crc_byte :: "crc \<Rightarrow> int \<Rightarrow> int \<Rightarrow> int" where
  "crc_byte c octet reg = fold (\<lambda>i r. crc_step c (bit octet (7 - i)) r) [0..<8] reg"

definition table_driven :: "crc \<Rightarrow> string \<Rightarrow> int" where
  "table_driven c text =
     (let octets = map (\<lambda>ch. if reflect_in c then reflect_bits (of_char ch) 8 else of_char ch) text;
          reg = fold (crc_byte c) octets (xor_in c AND crc_mask c);
          reg = (if reflect_out c then reflect_bits reg (width c) else reg)
      in (reg XOR xor_out c) AND crc_mask c)"

section \<open>The hasher (\<open>static_hash.py\<close>)\<close>

record hasher =
  max_ids :: nat
  crc_width :: nat
  id_mask :: int
  polynomials :: "(string \<times> poly_entry) list"
  crc_calculators :: "(string \<times> crc) list"
  id_bytes :: nat
  hash_table_bin :: string
  hash_table :: "(string \<times> nat) list"

text \<open>
  \<open>StaticHasher.__init__\<close>. The loop that creates one calculator per catalogued
  polynomial of the selected width comes first.
\<close>

definition make_calculators :: "nat \<Rightarrow> (string \<times> poly_entry) list \<Rightarrow> (string \<times> crc) list" where
  "make_calculators cw polys =
     map (\<lambda>(name, (p, _, r_in, x_in, r_out, x_out)).
            (name, \<lparr>width = cw, poly = p, reflect_in = r_in, xor_in = x_in,
                    reflect_out = r_out, xor_out = x_out\<rparr>)) polys"

definition init :: "int \<Rightarrow> error + hasher" where
  "init m =
     (let rounded = 2 ^ py_bit_length (m - 1) in
      case py_int_log2 m of Inl e \<Rightarrow> Inl e
      | Inr required_bits \<Rightarrow>
          let cw = (if required_bits mod 2 = 0 then required_bits else required_bits + 1) in
          if cw > 30 then Inl MaxIdsTooLarge
          else
            let min_available_width = Min (set (map fst KOOPMAN_POLYNOMIALS));
                cw = (if cw < min_available_width then min_available_width else cw);
                idm = push_bit required_bits 1 - 1
            in case map_of KOOPMAN_POLYNOMIALS cw of None \<Rightarrow> Inl KeyError
               | Some polys \<Rightarrow>
                   let calcs = make_calculators cw polys
                   in if calcs = [] then Inl (NoCalculators cw)
                      else Inr \<lparr>max_ids = rounded, crc_width = cw, id_mask = idm,
                                polynomials = polys, crc_calculators = calcs, id_bytes = 4,
                                hash_table_bin = replicate (4 * 8 * rounded) (CHR 0x00),
                                hash_table = []\<rparr>)"

text \<open>\<open>StaticHasher.calculate_crc\<close>.\<close>

definition calculate_crc :: "hasher \<Rightarrow> string \<Rightarrow> string \<Rightarrow> error + int" where
  "calculate_crc h text crc_name =
     (case dict_get (crc_calculators h) crc_name of Inl e \<Rightarrow> Inl e
      | Inr crc_calc \<Rightarrow>
          let crc_value = table_driven crc_calc text in Inr (crc_value AND id_mask h))"

text \<open>
  \<open>StaticHasher.find_conflicts\<close>: bucket the strings by masked CRC, keep the buckets
  that hold more than one string.
\<close>

fun bucket_strings ::
  "hasher \<Rightarrow> string \<Rightarrow> string list \<Rightarrow> (int \<times> string list) list \<Rightarrow> error + (int \<times> string list) list" where
  "bucket_strings h crc_name [] d = Inr d"
| "bucket_strings h crc_name (s # ss) d =
     (case calculate_crc h s crc_name of Inl e \<Rightarrow> Inl e
      | Inr hash_value \<Rightarrow> bucket_strings h crc_name ss (dd_append hash_value s d))"

definition find_conflicts ::
  "hasher \<Rightarrow> string list \<Rightarrow> string \<Rightarrow> error + (int \<times> string list) list" where
  "find_conflicts h strings crc_name =
     (case bucket_strings h crc_name strings [] of Inl e \<Rightarrow> Inl e
      | Inr hash_to_strings \<Rightarrow> Inr (filter (\<lambda>(k, v). length v > 1) hash_to_strings))"

text \<open>\<open>StaticHasher.assign_hash_functions\<close>.\<close>

type_synonym assignments = "(string \<times> (string \<times> nat)) list"

text \<open>The inner loop over \<open>remaining_strings\<close> that assigns the strings without conflict.\<close>

fun assign_free ::
  "string \<Rightarrow> string set \<Rightarrow> string list \<Rightarrow> assignments \<times> nat \<times> string set
     \<Rightarrow> assignments \<times> nat \<times> string set" where
  "assign_free crc_name conflicted_strings [] st = st"
| "assign_free crc_name conflicted_strings (s # ss) (result, next_unique_id, newly_assigned) =
     (if s \<notin> conflicted_strings
      then assign_free crc_name conflicted_strings ss
             (dict_set s (crc_name, next_unique_id) result, next_unique_id + 1,
              insert s newly_assigned)
      else assign_free crc_name conflicted_strings ss (result, next_unique_id, newly_assigned))"

text \<open>The outer loop over the CRC functions, with its \<open>break\<close>.\<close>

fun assign_loop ::
  "hasher \<Rightarrow> string list \<Rightarrow> assignments \<times> string list \<times> nat
     \<Rightarrow> error + (assignments \<times> string list \<times> nat)" where
  "assign_loop h [] st = Inr st"
| "assign_loop h (crc_name # crc_names) (result, remaining_strings, next_unique_id) =
     (case find_conflicts h remaining_strings crc_name of Inl e \<Rightarrow> Inl e
      | Inr conflicts \<Rightarrow>
          (case assign_free crc_name (set (concat (map snd conflicts))) remaining_strings
                  (result, next_unique_id, {}) of
             (result', next_unique_id', newly_assigned) \<Rightarrow>
               let remaining_strings' = filter (\<lambda>s. s \<notin> newly_assigned) remaining_strings
               in if remaining_strings' = [] then Inr (result', remaining_strings', next_unique_id')
                  else assign_loop h crc_names (result', remaining_strings', next_unique_id')))"

definition assign_hash_functions :: "hasher \<Rightarrow> string list \<Rightarrow> error + assignments" where
  "assign_hash_functions h strings =
     (case assign_loop h (map fst (crc_calculators h)) ([], strings, 0) of Inl e \<Rightarrow> Inl e
      | Inr (result, remaining_strings, next_unique_id) \<Rightarrow>
          if length remaining_strings \<noteq> 0
          then Inl (UnresolvableConflicts (length remaining_strings))
          else Inr result)"

text \<open>\<open>StaticHasher.process_file\<close>, from the lines that \<open>readlines\<close> returned.\<close>

datatype format = Ascii | Hex

text \<open>The loop that strips and validates the lines.\<close>

fun clean_lines :: "format \<Rightarrow> nat \<Rightarrow> string list \<Rightarrow> string list \<Rightarrow> error + string list" where
  "clean_lines fmt i [] strings = Inr strings"
| "clean_lines fmt i (l # ls) strings =
     (let line = strip l in
      case fmt of
        Ascii \<Rightarrow>
          if length line > 32 then Inl (SymbolTooLong (i + 1))
          else clean_lines fmt (i + 1) ls (if line \<noteq> [] then strings @ [line] else strings)
      | Hex \<Rightarrow>
          if line \<noteq> []
          then (case fromhex line of Inl e \<Rightarrow> Inl e
                | Inr hex_bytes \<Rightarrow>
                    if length hex_bytes > 32 then Inl (SymbolTooLong (i + 1))
                    else clean_lines fmt (i + 1) ls (strings @ [hex_bytes]))
          else clean_lines fmt (i + 1) ls strings)"

fun map_result :: "('a \<Rightarrow> error + 'b) \<Rightarrow> 'a list \<Rightarrow> error + 'b list" where
  "map_result f [] = Inr []"
| "map_result f (x # xs) =
     (case f x of Inl e \<Rightarrow> Inl e
      | Inr y \<Rightarrow> (case map_result f xs of Inl e \<Rightarrow> Inl e | Inr ys \<Rightarrow> Inr (y # ys)))"

text \<open>
  \<open>int.from_bytes(s.encode("ascii"), 'little').to_bytes(line_size, 'little')\<close>; the
  encoding is the identity on the model's strings, every character of the file being
  ASCII once it has been read.
\<close>

definition pad_symbol :: "nat \<Rightarrow> string \<Rightarrow> error + string" where
  "pad_symbol line_size s = to_bytes_little (from_bytes_little s) line_size"

definition line_size_of :: "string list \<Rightarrow> nat" where
  "line_size_of strings = fold max (map length strings) 0"

definition hex_strings_of :: "format \<Rightarrow> string list \<Rightarrow> error + string list" where
  "hex_strings_of fmt strings =
     (if fmt = Ascii then map_result (pad_symbol (line_size_of strings)) strings else Inr strings)"

text \<open>
  The loop that writes the packed table. The address is never negative, the masked
  CRC being the conjunction with a non-negative mask.
\<close>

fun write_table :: "hasher \<Rightarrow> assignments \<Rightarrow> string \<Rightarrow> error + string" where
  "write_table h [] tbl = Inr tbl"
| "write_table h ((string, (crc_func, unique_id)) # rest) tbl =
     (case get_poly_index crc_func of Inl e \<Rightarrow> Inl e
      | Inr None \<Rightarrow> Inl TypeError
      | Inr (Some poly_idx) \<Rightarrow>
          (case calculate_crc h string crc_func of Inl e \<Rightarrow> Inl e
           | Inr hash_val \<Rightarrow>
               let addr = nat (push_bit (crc_width h) (int poly_idx) OR hash_val);
                   content = nat (int unique_id OR push_bit (crc_width h) 1)
               in case to_bytes_little content 4 of Inl e \<Rightarrow> Inl e
                  | Inr bs \<Rightarrow> write_table h rest (slice_assign tbl (addr * 4) ((addr + 1) * 4) bs)))"

text \<open>The loop that fills the readable table.\<close>

fun fill_hash_table ::
  "format \<Rightarrow> nat \<Rightarrow> assignments \<Rightarrow> string list \<Rightarrow> (string \<times> nat) list \<Rightarrow> error + (string \<times> nat) list" where
  "fill_hash_table fmt line_size asg [] ht = Inr ht"
| "fill_hash_table fmt line_size asg (s # ss) ht =
     (case (if fmt = Ascii then pad_symbol line_size s else Inr s) of Inl e \<Rightarrow> Inl e
      | Inr key \<Rightarrow>
          (case dict_get asg key of Inl e \<Rightarrow> Inl e
           | Inr (crc_func, unique_id) \<Rightarrow> fill_hash_table fmt line_size asg ss (dict_set s unique_id ht)))"

definition is_ascii :: "string \<Rightarrow> bool" where
  "is_ascii s = (\<forall>c \<in> set s. (of_char c :: nat) < 128)"

definition process_file :: "hasher \<Rightarrow> format \<Rightarrow> string list \<Rightarrow> error + hasher" where
  "process_file h fmt lines =
     (if \<not> list_all is_ascii lines then Inl InputEncoding
      else case clean_lines fmt 0 lines [] of Inl e \<Rightarrow> Inl e
      | Inr strings \<Rightarrow>
          if length strings > max_ids h then Inl TooManySymbols
          else case hex_strings_of fmt strings of Inl e \<Rightarrow> Inl e
          | Inr hex_strings \<Rightarrow>
              (case assign_hash_functions h hex_strings of Inl e \<Rightarrow> Inl e
               | Inr asg \<Rightarrow>
                   (case write_table h asg (hash_table_bin h) of Inl e \<Rightarrow> Inl e
                    | Inr tbl \<Rightarrow>
                        (case fill_hash_table fmt (line_size_of strings) asg strings (hash_table h) of
                           Inl e \<Rightarrow> Inl e
                         | Inr ht \<Rightarrow> Inr (h\<lparr>hash_table_bin := tbl, hash_table := ht\<rparr>)))))"

text \<open>Constructing a hasher and processing a file with it, as \<open>main\<close> does.\<close>

definition build :: "int \<Rightarrow> format \<Rightarrow> string list \<Rightarrow> error + hasher" where
  "build m fmt lines = (case init m of Inl e \<Rightarrow> Inl e | Inr h \<Rightarrow> process_file h fmt lines)"

section \<open>The width selection as the specification words it\<close>

text \<open>
  The specification's \<open>required_bits\<close> is the floor of the binary logarithm of the
  constructor argument, and its \<open>crc_width\<close> the next even number, before the minimum of
  8 is applied. These two definitions follow the specification; the constructor above is
  compared with them.
\<close>

definition spec_required_bits :: "int \<Rightarrow> nat" where
  "spec_required_bits m = nat \<lfloor>log 2 (real_of_int m)\<rfloor>"

definition spec_selected_width :: "int \<Rightarrow> nat" where
  "spec_selected_width m =
     (let rb = spec_required_bits m in if even rb then rb else rb + 1)"

section \<open>Predicates for the properties of the cascade\<close>

text \<open>\<open>precedes xs a b\<close>: some occurrence of \<open>a\<close> in \<open>xs\<close> comes before an occurrence of \<open>b\<close>.\<close>

fun precedes :: "'a list \<Rightarrow> 'a \<Rightarrow> 'a \<Rightarrow> bool" where
  "precedes [] a b = False"
| "precedes (x # xs) a b = ((x = a \<and> b \<in> set xs) \<or> precedes xs a b)"

text \<open>
  The order in which identifiers are issued: an entry \<open>(symbol, (name, id))\<close> comes
  before another one when its polynomial comes earlier in the list of names, or the
  polynomial is the same and its symbol comes earlier in the input.
\<close>

definition assigned_before ::
  "string list \<Rightarrow> string list \<Rightarrow> string \<times> string \<times> nat \<Rightarrow> string \<times> string \<times> nat \<Rightarrow> bool" where
  "assigned_before names S x y =
     (precedes names (fst (snd x)) (fst (snd y)) \<or>
      (fst (snd x) = fst (snd y) \<and> precedes S (fst x) (fst y)))"

text \<open>
  The invariant of the loop over the CRC functions, for the input \<open>S\<close> and the names
  \<open>tried\<close> already tried: the remaining strings are the input strings without an
  assignment, in input order; every assigned string occurs once in the input; the
  identifiers are \<open>0, 1, \<dots>\<close> in the order of assignment, which is the order
  \<open>assigned_before\<close>; two different strings with the same polynomial have different
  masked CRC values.
\<close>

definition cascade_inv ::
  "hasher \<Rightarrow> string list \<Rightarrow> string list \<Rightarrow> string list \<Rightarrow> assignments \<times> string list \<times> nat \<Rightarrow> bool" where
  "cascade_inv h names S tried st =
     (case st of (result, remaining, n) \<Rightarrow>
        remaining = filter (\<lambda>s. s \<notin> fst ` set result) S \<and>
        distinct (map fst result) \<and>
        fst ` set result \<subseteq> set S \<and>
        (\<forall>s \<in> fst ` set result. length (filter ((=) s) S) = 1) \<and>
        map (snd \<circ> snd) result = [0..<n] \<and>
        (\<forall>x \<in> set result. fst (snd x) \<in> set tried) \<and>
        sorted_wrt (assigned_before names S) result \<and>
        (\<forall>x \<in> set result. \<forall>y \<in> set result.
           fst (snd x) = fst (snd y) \<and> fst x \<noteq> fst y \<longrightarrow>
           calculate_crc h (fst x) (fst (snd x)) \<noteq> calculate_crc h (fst y) (fst (snd y))))"

section \<open>The constructor\<close>

lemma min_available_width: "Min (set (map fst KOOPMAN_POLYNOMIALS)) = 8"
  by (simp add: KOOPMAN_POLYNOMIALS_def)

lemma even_width_cases:
  "even (cw::nat) \<Longrightarrow> 8 \<le> cw \<Longrightarrow> cw \<le> 30 \<Longrightarrow>
   cw \<in> {8, 10, 12, 14, 16, 18, 20, 22, 24, 26, 28, 30}"
  by (auto elim!: evenE) presburger

lemma catalog_width:
  "cw \<in> {8, 10, 12, 14, 16, 18, 20, 22, 24, 26, 28, 30} \<Longrightarrow>
   \<exists>polys. map_of KOOPMAN_POLYNOMIALS cw = Some polys \<and> length polys = 8 \<and> distinct (map fst polys)"
  unfolding KOOPMAN_POLYNOMIALS_def by (elim insertE emptyE; simp)

lemma py_int_log2_pos: "0 < m \<Longrightarrow> py_int_log2 m = Inr (spec_required_bits m)"
  by (simp add: py_int_log2_def spec_required_bits_def floorlog_def)

lemma py_int_log2_nonpos: "m \<le> 0 \<Longrightarrow> py_int_log2 m = Inl MathDomainError"
  by (simp add: py_int_log2_def)

lemma make_calculators_names: "map fst (make_calculators cw polys) = map fst polys"
  by (induction polys) (auto simp: make_calculators_def)

lemma selected_width_even: "even (spec_selected_width m)"
  by (simp add: spec_selected_width_def Let_def)

lemma init_nonpos: "m \<le> 0 \<Longrightarrow> init m = Inl MathDomainError"
  by (simp add: init_def py_int_log2_nonpos)

lemma init_pos:
  assumes "0 < m"
  shows "init m =
     (if 30 < spec_selected_width m then Inl MaxIdsTooLarge
      else case map_of KOOPMAN_POLYNOMIALS (max 8 (spec_selected_width m)) of
             None \<Rightarrow> Inl KeyError
           | Some polys \<Rightarrow>
               if polys = [] then Inl (NoCalculators (max 8 (spec_selected_width m)))
               else Inr \<lparr>max_ids = 2 ^ py_bit_length (m - 1),
                          crc_width = max 8 (spec_selected_width m),
                          id_mask = 2 ^ spec_required_bits m - 1,
                          polynomials = polys,
                          crc_calculators = make_calculators (max 8 (spec_selected_width m)) polys,
                          id_bytes = 4,
                          hash_table_bin = replicate (4 * 8 * 2 ^ py_bit_length (m - 1)) (CHR 0x00),
                          hash_table = []\<rparr>)"
proof (cases "even (spec_required_bits m)")
  case True
  then have sel: "spec_selected_width m = spec_required_bits m"
    by (simp add: spec_selected_width_def)
  from True have m2: "spec_required_bits m mod 2 = 0" by presburger
  show ?thesis
    unfolding init_def py_int_log2_pos [OF assms] min_available_width sel
    by (simp add: Let_def m2 max_def push_bit_eq_mult make_calculators_def
        split: option.splits)
next
  case False
  then have sel: "spec_selected_width m = spec_required_bits m + 1"
    by (simp add: spec_selected_width_def)
  from False have m2: "spec_required_bits m mod 2 \<noteq> 0" by presburger
  show ?thesis
    unfolding init_def py_int_log2_pos [OF assms] min_available_width sel
    by (simp add: Let_def m2 max_def push_bit_eq_mult make_calculators_def
        split: option.splits)
qed

lemma init_too_large:
  "0 < m \<Longrightarrow> 30 < spec_selected_width m \<Longrightarrow> init m = Inl MaxIdsTooLarge"
  by (simp add: init_pos)

lemma init_ok:
  assumes "0 < m" and "spec_selected_width m \<le> 30"
  shows "\<exists>polys. map_of KOOPMAN_POLYNOMIALS (max 8 (spec_selected_width m)) = Some polys \<and>
           length polys = 8 \<and> distinct (map fst polys) \<and>
           init m = Inr \<lparr>max_ids = 2 ^ py_bit_length (m - 1),
                          crc_width = max 8 (spec_selected_width m),
                          id_mask = 2 ^ spec_required_bits m - 1,
                          polynomials = polys,
                          crc_calculators = make_calculators (max 8 (spec_selected_width m)) polys,
                          id_bytes = 4,
                          hash_table_bin = replicate (4 * 8 * 2 ^ py_bit_length (m - 1)) (CHR 0x00),
                          hash_table = []\<rparr>"
proof -
  let ?cw = "max 8 (spec_selected_width m)"
  have "even ?cw" using selected_width_even [of m] by (simp add: max_def)
  moreover have "8 \<le> ?cw" "?cw \<le> 30" using assms by simp_all
  ultimately have "?cw \<in> {8, 10, 12, 14, 16, 18, 20, 22, 24, 26, 28, 30}"
    by (rule even_width_cases)
  then obtain polys where P: "map_of KOOPMAN_POLYNOMIALS ?cw = Some polys"
    "length polys = 8" "distinct (map fst polys)"
    using catalog_width by blast
  have ne: "polys \<noteq> []" using P(2) by auto
  show ?thesis using assms P ne by (simp add: init_pos)
qed


lemma spec_required_bits_floorlog: "0 < m \<Longrightarrow> spec_required_bits m = floorlog 2 (nat m) - 1"
  by (simp add: spec_required_bits_def floorlog_def)

lemma init_cases:
  obtains (nonpos) "m \<le> 0" "init m = Inl MathDomainError"
  | (large) "0 < m" "30 < spec_selected_width m" "init m = Inl MaxIdsTooLarge"
  | (ok) polys where "0 < m" "spec_selected_width m \<le> 30"
      "map_of KOOPMAN_POLYNOMIALS (max 8 (spec_selected_width m)) = Some polys"
      "length polys = 8" "distinct (map fst polys)"
      "init m = Inr \<lparr>max_ids = 2 ^ py_bit_length (m - 1),
                          crc_width = max 8 (spec_selected_width m),
                          id_mask = 2 ^ spec_required_bits m - 1,
                          polynomials = polys,
                          crc_calculators = make_calculators (max 8 (spec_selected_width m)) polys,
                          id_bytes = 4,
                          hash_table_bin = replicate (4 * 8 * 2 ^ py_bit_length (m - 1)) (CHR 0x00),
                          hash_table = []\<rparr>"
proof (cases "m \<le> 0")
  case True
  then show ?thesis using init_nonpos nonpos by blast
next
  case False
  then have pos: "0 < m" by simp
  show ?thesis
  proof (cases "30 < spec_selected_width m")
    case True
    then show ?thesis using pos init_too_large large by blast
  next
    case False
    then have "spec_selected_width m \<le> 30" by simp
    from init_ok [OF pos this] show ?thesis using ok pos \<open>spec_selected_width m \<le> 30\<close> by blast
  qed
qed

lemma required_le_selected: "spec_required_bits m \<le> spec_selected_width m"
  by (simp add: spec_selected_width_def Let_def)

text \<open>
  Claim C7. For a positive argument, \<open>required_bits\<close> is the floor of the binary
  logarithm, the selected width is \<open>required_bits\<close> rounded up to an even number, the
  constructor fails with \<open>MaxIdsTooLarge\<close> exactly when that width exceeds 30, and
  otherwise it stores the width raised to at least 8 and the mask
  \<open>(1 << required_bits) - 1\<close>. The argument \<open>1 << 31\<close> is rejected.
\<close>

theorem crc_width_selection:
  "(init m = Inl MaxIdsTooLarge \<longleftrightarrow> 0 < m \<and> 30 < spec_selected_width m) \<and>
   (0 < m \<and> spec_selected_width m \<le> 30 \<longrightarrow>
      (\<exists>h. init m = Inr h \<and> crc_width h = max 8 (spec_selected_width m) \<and>
           id_mask h = push_bit (spec_required_bits m) 1 - 1)) \<and>
   init (push_bit 31 1) = Inl MaxIdsTooLarge"
proof (intro conjI)
  show "init m = Inl MaxIdsTooLarge \<longleftrightarrow> 0 < m \<and> 30 < spec_selected_width m"
    by (cases m rule: init_cases) auto
  show "0 < m \<and> spec_selected_width m \<le> 30 \<longrightarrow>
      (\<exists>h. init m = Inr h \<and> crc_width h = max 8 (spec_selected_width m) \<and>
           id_mask h = push_bit (spec_required_bits m) 1 - 1)"
    by (cases m rule: init_cases) (auto simp: push_bit_eq_mult)
  have "spec_required_bits (push_bit 31 1) = 31"
    by (simp add: spec_required_bits_floorlog compute_floorlog)
  then have "30 < spec_selected_width (push_bit 31 1)"
    by (simp add: spec_selected_width_def)
  then show "init (push_bit 31 1) = Inl MaxIdsTooLarge"
    by (simp add: init_too_large)
qed

lemma spec_required_bits_8: "spec_required_bits 8 = 3"
  by (simp add: spec_required_bits_floorlog compute_floorlog)

lemma spec_selected_width_8: "spec_selected_width 8 = 4"
  by (simp add: spec_selected_width_def spec_required_bits_8)

theorem crc_width_selection_witness:
  "(0::int) < 8 \<and> spec_selected_width 8 \<le> 30 \<and> spec_required_bits 8 = 3 \<and>
   \<not> isl (init 8) \<and> crc_width (projr (init 8)) = 8 \<and> id_mask (projr (init 8)) = 7"
  using crc_width_selection [of 8]
  by (auto simp: spec_selected_width_8 spec_required_bits_8)

section \<open>The masked CRC and the table at construction\<close>

lemma make_calculators_lookup:
  "name \<in> set (map fst polys) \<Longrightarrow> \<exists>c. map_of (make_calculators cw polys) name = Some c"
  using make_calculators_names [of cw polys]
  by (metis map_of_eq_None_iff not_None_eq set_map)

lemma and_mask_range:
  fixes x :: int
  shows "0 \<le> x AND (2 ^ n - 1)" and "x AND (2 ^ n - 1) < 2 ^ n"
  by (simp_all flip: mask_eq_exp_minus_1 take_bit_eq_mask)

lemma calculate_crc_Some:
  "map_of (crc_calculators h) crc_name = Some c \<Longrightarrow>
   calculate_crc h text crc_name = Inr (table_driven c text AND id_mask h)"
  by (simp add: calculate_crc_def dict_get_def)

lemma address_split:
  fixes v :: int
  assumes "0 \<le> v" and "v < 2 ^ n"
  shows "take_bit n (push_bit n i OR v) = v" and "drop_bit n (push_bit n i OR v) = i"
proof -
  have tv: "take_bit n v = v" using assms by (simp add: take_bit_int_eq_self)
  show "take_bit n (push_bit n i OR v) = v"
    by (simp add: take_bit_push_bit tv)
  have "drop_bit n v = 0" using assms by (simp add: drop_bit_eq_div)
  then show "drop_bit n (push_bit n i OR v) = i"
    by (simp add: drop_bit_push_bit)
qed

lemma po2_rounding:
  assumes "0 < (m::int)"
  shows "m \<le> 2 ^ py_bit_length (m - 1)" and "(2::int) ^ py_bit_length (m - 1) < 2 * m"
proof -
  show "m \<le> 2 ^ py_bit_length (m - 1)"
  proof (cases "m = 1")
    case True then show ?thesis by (simp add: py_bit_length_def floorlog_def)
  next
    case False
    with assms have pos: "0 < nat (m - 1)" by simp
    from floorlog_bounds [OF pos, of 2]
    have "nat (m - 1) < 2 ^ floorlog 2 (nat (m - 1))" by simp
    then have "m - 1 < 2 ^ floorlog 2 (nat (m - 1))"
      by (metis nat_less_iff of_nat_numeral of_nat_power assms False nat_int zless_nat_conj)
    with assms show ?thesis by (simp add: py_bit_length_def)
  qed
  show "(2::int) ^ py_bit_length (m - 1) < 2 * m"
  proof (cases "m = 1")
    case True then show ?thesis by (simp add: py_bit_length_def floorlog_def)
  next
    case False
    with assms have pos: "0 < nat (m - 1)" by simp
    then have fl: "0 < floorlog 2 (nat (m - 1))" by (simp add: floorlog_def)
    from floorlog_bounds [OF pos, of 2]
    have "2 ^ (floorlog 2 (nat (m - 1)) - 1) \<le> nat (m - 1)" by simp
    then have "2 * 2 ^ (floorlog 2 (nat (m - 1)) - 1) \<le> 2 * nat (m - 1)" by simp
    then have "2 ^ floorlog 2 (nat (m - 1)) \<le> 2 * nat (m - 1)"
      using fl by (metis power_minus_mult mult.commute)
    then have "int (2 ^ floorlog 2 (nat (m - 1))) \<le> int (2 * nat (m - 1))"
      by (rule iffD2 [OF of_nat_le_iff])
    with assms show ?thesis by (simp add: py_bit_length_def)
  qed
qed

lemma init_8:
  "init 8 = Inr \<lparr>max_ids = 8, crc_width = 8, id_mask = 7,
     polynomials = [(''CRC-8F-3'', (0x1cf, ''CRC-8F-3'', False, 0, False, 0)),
      (''CRC-8K-3'', (0x14d, ''CRC-8K-3'', False, 0, False, 0)),
      (''SAE-J1850'', (0x11d, ''SAE-J1850'', False, 0, False, 0)),
      (''CCITT-8'', (0x163, ''CCITT-8'', False, 0, False, 0)),
      (''CRC-8F-8'', (0x17f, ''CRC-8F-8'', False, 0, False, 0)),
      (''CRC-8-AUTOSAR'', (0x12f, ''CRC-8-AUTOSAR'', False, 0, False, 0)),
      (''CRC-8-Bluetooth'', (0x1a7, ''CRC-8-Bluetooth'', False, 0, False, 0)),
      (''WCDMA-8'', (0x19b, ''WCDMA-8'', False, 0, False, 0))],
     crc_calculators = make_calculators 8
      [(''CRC-8F-3'', (0x1cf, ''CRC-8F-3'', False, 0, False, 0)),
      (''CRC-8K-3'', (0x14d, ''CRC-8K-3'', False, 0, False, 0)),
      (''SAE-J1850'', (0x11d, ''SAE-J1850'', False, 0, False, 0)),
      (''CCITT-8'', (0x163, ''CCITT-8'', False, 0, False, 0)),
      (''CRC-8F-8'', (0x17f, ''CRC-8F-8'', False, 0, False, 0)),
      (''CRC-8-AUTOSAR'', (0x12f, ''CRC-8-AUTOSAR'', False, 0, False, 0)),
      (''CRC-8-Bluetooth'', (0x1a7, ''CRC-8-Bluetooth'', False, 0, False, 0)),
      (''WCDMA-8'', (0x19b, ''WCDMA-8'', False, 0, False, 0))],
     id_bytes = 4, hash_table_bin = replicate 256 (CHR 0x00), hash_table = []\<rparr>"
proof -
  have bl: "py_bit_length 7 = 3" by (simp add: py_bit_length_def compute_floorlog)
  have m: "map_of KOOPMAN_POLYNOMIALS 8 = Some (snd (hd KOOPMAN_POLYNOMIALS))"
    by (simp add: KOOPMAN_POLYNOMIALS_def)
  show ?thesis
    by (simp add: init_pos spec_selected_width_8 spec_required_bits_8 bl m)
       (simp add: KOOPMAN_POLYNOMIALS_def)
qed


lemma init_fields:
  assumes "init m = Inr h"
  shows "0 < m" and "spec_selected_width m \<le> 30"
    and "max_ids h = 2 ^ py_bit_length (m - 1)"
    and "crc_width h = max 8 (spec_selected_width m)"
    and "id_mask h = 2 ^ spec_required_bits m - 1"
    and "crc_calculators h = make_calculators (crc_width h) (polynomials h)"
    and "length (polynomials h) = 8" and "distinct (map fst (polynomials h))"
    and "id_bytes h = 4"
    and "hash_table_bin h = replicate (4 * 8 * max_ids h) (CHR 0x00)"
    and "hash_table h = []"
  using assms by (cases m rule: init_cases; auto)+

lemma init_names:
  assumes "init m = Inr h"
  shows "map fst (crc_calculators h) = map fst (polynomials h)"
  using init_fields(6) [OF assms] by (simp add: make_calculators_names)

text \<open>
  Claim C10. For a constructed hasher and a polynomial name of its width,
  \<open>calculate_crc\<close> returns the raw CRC ANDed with \<open>id_mask\<close>; the value lies in
  \<open>[0, 2 ^ required_bits)\<close> with \<open>required_bits \<le> crc_width\<close>, so within the block
  of any polynomial index the slot addressed is that value, below \<open>2 ^ required_bits\<close>.
\<close>

theorem calculate_crc_masked:
  assumes "init m = Inr h" and "crc_name \<in> set (map fst (polynomials h))"
  shows "\<exists>c v. map_of (crc_calculators h) crc_name = Some c \<and>
           v = table_driven c text AND id_mask h \<and>
           calculate_crc h text crc_name = Inr v \<and>
           0 \<le> v \<and> v < 2 ^ spec_required_bits m \<and>
           spec_required_bits m \<le> crc_width h \<and>
           take_bit (crc_width h) (push_bit (crc_width h) (int poly_idx) OR v) = v \<and>
           drop_bit (crc_width h) (push_bit (crc_width h) (int poly_idx) OR v) = int poly_idx"
proof -
  note F = init_fields [OF assms(1)]
  from assms(2) obtain c where c: "map_of (crc_calculators h) crc_name = Some c"
    using make_calculators_lookup [of crc_name "polynomials h" "crc_width h"] F(6) by auto
  let ?v = "table_driven c text AND id_mask h"
  have r: "0 \<le> ?v" "?v < 2 ^ spec_required_bits m"
    unfolding F(5) by (rule and_mask_range)+
  have le: "spec_required_bits m \<le> crc_width h"
    using required_le_selected [of m] F(4) by simp
  have "(2::int) ^ spec_required_bits m \<le> 2 ^ crc_width h"
    using le by (simp add: power_increasing)
  with r have lt: "?v < 2 ^ crc_width h" by linarith
  show ?thesis
    using c r le address_split [OF r(1) lt] calculate_crc_Some [OF c] by blast
qed

theorem calculate_crc_masked_witness:
  "init 8 = Inr (projr (init 8)) \<and>
   ''CRC-8F-3'' \<in> set (map fst (polynomials (projr (init 8)))) \<and>
   crc_width (projr (init 8)) = 8 \<and> id_mask (projr (init 8)) = 7 \<and>
   spec_required_bits 8 = 3 \<and>
   calculate_crc (projr (init 8)) ''A'' ''CRC-8F-3'' = Inr 5"
proof -
  have a: "init 8 = Inr (projr (init 8))" by (simp add: init_8)
  have b: "''CRC-8F-3'' \<in> set (map fst (polynomials (projr (init 8))))"
    by (simp add: init_8)
  have v: "calculate_crc (projr (init 8)) ''A'' ''CRC-8F-3'' = Inr 5"
    by (simp add: init_8 calculate_crc_def dict_get_def make_calculators_def
        table_driven_def crc_byte_def crc_step_def crc_mask_def upt_rec bit_numeral_simps)
  from calculate_crc_masked [OF a b, of "''A''" 0] v
  have "(5::int) < 2 ^ spec_required_bits 8" by auto
  with a b v show ?thesis by (simp add: init_8 spec_required_bits_8)
qed

text \<open>
  The packed table at construction: a zero-filled array of \<open>id_bytes * 8 * max_ids\<close>
  bytes, \<open>max_ids\<close> being the argument rounded up to a power of two.
\<close>

lemma table_at_construction:
  assumes "init m = Inr h"
  shows "id_bytes h = 4 \<and>
         hash_table_bin h = replicate (id_bytes h * 8 * max_ids h) (CHR 0x00) \<and>
         length (hash_table_bin h) = 4 * 8 * 2 ^ py_bit_length (m - 1) \<and>
         max_ids h = 2 ^ py_bit_length (m - 1) \<and>
         m \<le> int (max_ids h) \<and> int (max_ids h) < 2 * m"
proof -
  note F = init_fields [OF assms]
  from po2_rounding [OF F(1)] show ?thesis
    by (simp add: F(3,9,10))
qed


section \<open>The catalog lookup\<close>

lemma list_index_member:
  "x \<in> set xs \<Longrightarrow> \<exists>i. list_index xs x = Some i \<and> i < length xs \<and> xs ! i = x"
  by (induction xs) auto

lemma list_index_absent: "x \<notin> set xs \<Longrightarrow> list_index xs x = None"
  by (induction xs) auto

lemma get_poly_index_groups_absent:
  "p \<notin> set (concat (map (map fst) grps)) \<Longrightarrow> get_poly_index_groups grps p = Inr None"
  by (induction grps) auto

lemma get_poly_index_groups_member:
  assumes "distinct (concat (map (map fst) grps))" and "grp \<in> set grps"
    and "p \<in> set (map fst grp)"
  shows "\<exists>i. get_poly_index_groups grps p = Inr (Some i) \<and> i < length grp \<and> map fst grp ! i = p"
  using assms
proof (induction grps)
  case Nil
  then show ?case by simp
next
  case (Cons g grps)
  show ?case
  proof (cases "p \<in> set (map fst g)")
    case True
    have "g = grp"
    proof (rule ccontr)
      assume "g \<noteq> grp"
      with Cons.prems(2) have "grp \<in> set grps" by simp
      with Cons.prems(3) have "p \<in> set (concat (map (map fst) grps))" by auto
      with True Cons.prems(1) show False by auto
    qed
    with True list_index_member [OF True] show ?thesis by auto
  next
    case False
    with Cons.prems(3) have "grp \<noteq> g" by auto
    with Cons.prems(2) have "grp \<in> set grps" by simp
    with Cons False show ?thesis by auto
  qed
qed

lemma catalog_names_distinct:
  "distinct (concat (map (map fst) (map snd KOOPMAN_POLYNOMIALS)))"
  unfolding KOOPMAN_POLYNOMIALS_def by simp

lemma catalog_group_length:
  "(w, grp) \<in> set KOOPMAN_POLYNOMIALS \<Longrightarrow> length grp = 8"
  unfolding KOOPMAN_POLYNOMIALS_def by auto


text \<open>
  Claim C5, as amended. For every catalogued polynomial name, \<open>get_poly_index\<close>
  returns the position of the name within the ordered list of its width, an integer in
  \<open>[0, 8)\<close>; for a name that is not in the catalog it raises nothing and returns
  \<open>None\<close>.
\<close>

theorem get_poly_index_position:
  "((w, grp) \<in> set KOOPMAN_POLYNOMIALS \<and> p \<in> set (map fst grp) \<longrightarrow>
      (\<exists>i. get_poly_index p = Inr (Some i) \<and> i < 8 \<and> map fst grp ! i = p)) \<and>
   (p \<notin> set (concat (map (map fst) (map snd KOOPMAN_POLYNOMIALS))) \<longrightarrow>
      get_poly_index p = Inr None)"
proof (intro conjI impI)
  assume a: "(w, grp) \<in> set KOOPMAN_POLYNOMIALS \<and> p \<in> set (map fst grp)"
  then have "grp \<in> set (map snd KOOPMAN_POLYNOMIALS)" by force
  from get_poly_index_groups_member [OF catalog_names_distinct this] a
  obtain i where "get_poly_index p = Inr (Some i)" "i < length grp" "map fst grp ! i = p"
    unfolding get_poly_index_def by blast
  moreover have "length grp = 8" using a catalog_group_length by blast
  ultimately show "\<exists>i. get_poly_index p = Inr (Some i) \<and> i < 8 \<and> map fst grp ! i = p"
    by auto
next
  assume "p \<notin> set (concat (map (map fst) (map snd KOOPMAN_POLYNOMIALS)))"
  then show "get_poly_index p = Inr None"
    unfolding get_poly_index_def by (rule get_poly_index_groups_absent)
qed

lemma catalog_width_10:
  "(10, [(''CRC-10F-3'', (0x64f, ''CRC-10F-3'', False, 0, False, 0)),
      (''CRC-10F-8.1'', (0x5fb, ''CRC-10F-8.1'', False, 0, False, 0)),
      (''CRC-10F-6.1'', (0x58f, ''CRC-10F-6.1'', False, 0, False, 0)),
      (''FP-10'', (0x409, ''FP-10'', False, 0, False, 0)),
      (''CRC-10F-4.2'', (0x48f, ''CRC-10F-4.2'', False, 0, False, 0)),
      (''CRC-10F-8.2'', (0x5bd, ''CRC-10F-8.2'', False, 0, False, 0)),
      (''CRC-10-CDMA2000'', (0x7d9, ''CRC-10-CDMA2000'', False, 0, False, 0)),
      (''FOP-11'', (0x40d, ''FOP-11'', False, 0, False, 0))]) \<in> set KOOPMAN_POLYNOMIALS"
  unfolding KOOPMAN_POLYNOMIALS_def by simp

lemma bogus_not_catalogued:
  "''CRC-32'' \<notin> set (concat (map (map fst) (map snd KOOPMAN_POLYNOMIALS)))"
  unfolding KOOPMAN_POLYNOMIALS_def by simp

theorem get_poly_index_position_witness:
  "get_poly_index ''FOP-11'' = Inr (Some 7) \<and> get_poly_index ''CRC-32'' = Inr None"
proof -
  let ?grp = "[(''CRC-10F-3'', (0x64f, ''CRC-10F-3'', False, 0, False, 0)),
      (''CRC-10F-8.1'', (0x5fb, ''CRC-10F-8.1'', False, 0, False, 0)),
      (''CRC-10F-6.1'', (0x58f, ''CRC-10F-6.1'', False, 0, False, 0)),
      (''FP-10'', (0x409, ''FP-10'', False, 0, False, 0)),
      (''CRC-10F-4.2'', (0x48f, ''CRC-10F-4.2'', False, 0, False, 0)),
      (''CRC-10F-8.2'', (0x5bd, ''CRC-10F-8.2'', False, 0, False, 0)),
      (''CRC-10-CDMA2000'', (0x7d9, ''CRC-10-CDMA2000'', False, 0, False, 0)),
      (''FOP-11'', (0x40d, ''FOP-11'', False, 0, False, 0::int))] :: (string \<times> poly_entry) list"
  have m: "''FOP-11'' \<in> set (map fst ?grp)" by simp
  from get_poly_index_position [of 10 ?grp "''FOP-11''"] catalog_width_10 m
  obtain i where i: "get_poly_index ''FOP-11'' = Inr (Some i)" "i < 8" "map fst ?grp ! i = ''FOP-11''"
    by blast
  have "get_poly_index ''FOP-11'' = Inr (Some 7)"
    by (simp add: get_poly_index_def KOOPMAN_POLYNOMIALS_def)
  with i(1) have "i = 7" by simp
  moreover from get_poly_index_position [of 10 ?grp "''CRC-32''"] bogus_not_catalogued
  have "get_poly_index ''CRC-32'' = Inr None" by blast
  ultimately show ?thesis using i(1) by simp
qed

text \<open>
  A name outside the catalog makes the function return \<open>None\<close>; it does not fail.
\<close>

theorem get_poly_index_counterexample:
  "''CRC-32'' \<notin> set (concat (map (map fst) (map snd KOOPMAN_POLYNOMIALS))) \<and>
   get_poly_index ''CRC-32'' = Inr None \<and> \<not> isl (get_poly_index ''CRC-32'')"
proof -
  have "get_poly_index ''CRC-32'' = Inr None"
    unfolding get_poly_index_def
    by (rule get_poly_index_groups_absent [OF bogus_not_catalogued])
  with bogus_not_catalogued show ?thesis by simp
qed

section \<open>Normalization of the symbols\<close>

lemma from_bytes_little_bound: "from_bytes_little bs < 256 ^ length bs"
proof (induction bs)
  case Nil
  show ?case by simp
next
  case (Cons c cs)
  have "(of_char c :: nat) < 256" by simp
  then have "of_char c + 256 * from_bytes_little cs < 256 + 256 * from_bytes_little cs" by simp
  also have "\<dots> = 256 * (from_bytes_little cs + 1)" by simp
  also have "\<dots> \<le> 256 * 256 ^ length cs"
    using Cons.IH by (simp only: mult_le_cancel1) simp
  finally show ?case by simp
qed

lemma le_bytes_zero: "le_bytes k 0 = replicate k (CHR 0x00)"
proof (induction k)
  case 0
  show ?case by simp
next
  case (Suc k)
  have "char_of (0::nat) = CHR 0x00" by (simp add: char_of_eq_iff)
  with Suc show ?case by simp
qed

lemma le_bytes_from_bytes:
  "length bs \<le> L \<Longrightarrow>
   le_bytes L (from_bytes_little bs) = bs @ replicate (L - length bs) (CHR 0x00)"
proof (induction bs arbitrary: L)
  case Nil
  show ?case by (simp add: le_bytes_zero)
next
  case (Cons c cs)
  then obtain k where L: "L = Suc k" and k: "length cs \<le> k" by (cases L) auto
  have d: "(of_char c + 256 * from_bytes_little cs) div 256 = from_bytes_little cs"
    by simp
  have "char_of (of_char c + 256 * from_bytes_little cs) = char_of (of_char c :: nat)"
    by (simp only: char_of_quasi_inj) simp
  then have m: "char_of (of_char c + 256 * from_bytes_little cs) = c" by simp
  show ?case using Cons.IH [OF k] by (simp add: L d m)
qed

lemma line_size_fold: "fold max ns (a::nat) = Max (set (a # ns))"
  by (simp only: Max.set_eq_fold)

lemma line_size_ge: "s \<in> set strings \<Longrightarrow> length s \<le> line_size_of strings"
  by (simp add: line_size_of_def line_size_fold)

lemma line_size_max:
  "strings \<noteq> [] \<Longrightarrow> line_size_of strings = Max (length ` set strings)"
  by (simp add: line_size_of_def line_size_fold)

lemma pad_symbol_eq:
  "length s \<le> L \<Longrightarrow> pad_symbol L s = Inr (s @ replicate (L - length s) (CHR 0x00))"
proof -
  assume a: "length s \<le> L"
  have "from_bytes_little s < 256 ^ length s" by (rule from_bytes_little_bound)
  also have "\<dots> \<le> 256 ^ L" using a by (simp add: power_increasing)
  finally show ?thesis by (simp add: pad_symbol_def to_bytes_little_def le_bytes_from_bytes [OF a])
qed

lemma map_result_Inr:
  "(\<And>x. x \<in> set xs \<Longrightarrow> f x = Inr (g x)) \<Longrightarrow> map_result f xs = Inr (map g xs)"
  by (induction xs) auto

lemma hex_strings_of_ascii:
  "hex_strings_of Ascii strings =
     Inr (map (\<lambda>s. s @ replicate (line_size_of strings - length s) (CHR 0x00)) strings)"
  unfolding hex_strings_of_def
  by (simp, rule map_result_Inr) (simp add: pad_symbol_eq line_size_ge)


text \<open>
  Claim C9, as amended. In ascii format every raw symbol is mapped to exactly \<open>L\<close>
  bytes, \<open>L\<close> being the maximum raw symbol length of the input: the raw bytes come
  first and zero bytes fill the high end; \<open>"A"\<close> and \<open>"AA"\<close> give \<open>[0x41, 0x00]\<close> and
  \<open>[0x41, 0x41]\<close>. In hex format the decoded symbols are used as they are, without
  padding.
\<close>

theorem normalization_pads:
  "hex_strings_of Ascii strings =
     Inr (map (\<lambda>s. s @ replicate (line_size_of strings - length s) (CHR 0x00)) strings) \<and>
   (\<forall>s \<in> set strings.
      length (s @ replicate (line_size_of strings - length s) (CHR 0x00)) = line_size_of strings) \<and>
   (strings \<noteq> [] \<longrightarrow> line_size_of strings = Max (length ` set strings)) \<and>
   hex_strings_of Hex strings = Inr strings \<and>
   hex_strings_of Ascii [''A'', ''AA''] = Inr [[CHR 0x41, CHR 0x00], [CHR 0x41, CHR 0x41]]"
proof (intro conjI)
  show "hex_strings_of Ascii strings =
     Inr (map (\<lambda>s. s @ replicate (line_size_of strings - length s) (CHR 0x00)) strings)"
    by (rule hex_strings_of_ascii)
  show "\<forall>s \<in> set strings.
      length (s @ replicate (line_size_of strings - length s) (CHR 0x00)) = line_size_of strings"
    using line_size_ge by auto
  show "strings \<noteq> [] \<longrightarrow> line_size_of strings = Max (length ` set strings)"
    using line_size_max by blast
  show "hex_strings_of Hex strings = Inr strings"
    by (simp add: hex_strings_of_def)
  have "line_size_of [''A'', ''AA''] = 2" by (simp add: line_size_of_def)
  then show "hex_strings_of Ascii [''A'', ''AA''] = Inr [[CHR 0x41, CHR 0x00], [CHR 0x41, CHR 0x41]]"
    by (simp add: hex_strings_of_ascii)
qed

theorem normalization_pads_witness:
  "line_size_of [''A'', ''AA''] = 2 \<and>
   length (''A'' @ replicate (line_size_of [''A'', ''AA''] - length ''A'') (CHR 0x00)) = 2 \<and>
   hex_strings_of Ascii [''A'', ''AA''] = Inr [[CHR 0x41, CHR 0x00], [CHR 0x41, CHR 0x41]]"
proof -
  have l: "line_size_of [''A'', ''AA''] = 2" by (simp add: line_size_of_def)
  from normalization_pads [of "[''A'', ''AA'']"] show ?thesis by (simp add: l)
qed

text \<open>
  In hex format the lines \<open>41\<close> and \<open>4141\<close> decode to a one-byte and a two-byte symbol;
  the one-byte symbol is passed on with one byte although \<open>L = 2\<close>.
\<close>

theorem normalization_counterexample:
  "clean_lines Hex 0 [''41'', ''4141''] [] = Inr [''A'', ''AA''] \<and>
   line_size_of [''A'', ''AA''] = 2 \<and>
   hex_strings_of Hex [''A'', ''AA''] = Inr [''A'', ''AA''] \<and>
   length ''A'' \<noteq> line_size_of [''A'', ''AA'']"
  by (simp add: line_size_of_def hex_strings_of_def strip_def py_isspace_def hex_space_def
      hex_digit_def char_of_eq_iff)

section \<open>One pass of the cascade\<close>

subsection \<open>The buckets\<close>

lemma dd_append_keys:
  "map fst (dd_append k v d) = (if k \<in> set (map fst d) then map fst d else map fst d @ [k])"
  by (induction d) (force+)

lemma dd_append_distinct: "distinct (map fst d) \<Longrightarrow> distinct (map fst (dd_append k v d))"
  by (simp add: dd_append_keys)

lemma map_of_dd_append:
  "map_of (dd_append k v d) =
     (map_of d)(k \<mapsto> (case map_of d k of None \<Rightarrow> [v] | Some vs \<Rightarrow> vs @ [v]))"
  by (induction d) (auto simp: fun_eq_iff)

lemma buckets_distinct:
  "distinct (map fst d) \<Longrightarrow> distinct (map fst (fold (\<lambda>s. dd_append (H s) s) ss d))"
  by (induction ss arbitrary: d) (simp_all add: dd_append_distinct)

lemma map_of_buckets:
  "map_of (fold (\<lambda>s. dd_append (H s) s) ss d) k =
     (case map_of d k of
        None \<Rightarrow> (if filter (\<lambda>t. H t = k) ss = [] then None else Some (filter (\<lambda>t. H t = k) ss))
      | Some vs \<Rightarrow> Some (vs @ filter (\<lambda>t. H t = k) ss))"
proof (induction ss arbitrary: d)
  case Nil
  show ?case by (simp split: option.splits)
next
  case (Cons s ss)
  show ?case
    by (simp add: Cons.IH map_of_dd_append split: option.splits)
qed

lemma conflicted_set:
  "set (concat (map snd (filter (\<lambda>(k, v). length v > 1) (fold (\<lambda>s. dd_append (H s) s) ss [])))) =
     {s \<in> set ss. 1 < length (filter (\<lambda>t. H t = H s) ss)}"
  (is "?L = ?R")
proof -
  let ?D = "fold (\<lambda>s. dd_append (H s) s) ss []"
  have dist: "distinct (map fst ?D)" by (rule buckets_distinct) simp
  have mem: "(k, v) \<in> set ?D \<longleftrightarrow> v \<noteq> [] \<and> v = filter (\<lambda>t. H t = k) ss" for k v
    using map_of_buckets [of H ss "[]" k] map_of_eq_Some_iff [OF dist, of k v]
    by (auto split: if_splits)
  show ?thesis
  proof (rule set_eqI)
    fix s
    have "s \<in> ?L \<longleftrightarrow> (\<exists>k v. (k, v) \<in> set ?D \<and> 1 < length v \<and> s \<in> set v)"
      by auto
    also have "\<dots> \<longleftrightarrow> (\<exists>k. 1 < length (filter (\<lambda>t. H t = k) ss) \<and> s \<in> set (filter (\<lambda>t. H t = k) ss))"
      unfolding mem by auto
    also have "\<dots> \<longleftrightarrow> s \<in> ?R" by auto
    finally show "s \<in> ?L \<longleftrightarrow> s \<in> ?R" .
  qed
qed

lemma bucket_strings_eq:
  assumes "map_of (crc_calculators h) crc_name = Some c"
  shows "bucket_strings h crc_name ss d =
           Inr (fold (\<lambda>s. dd_append (table_driven c s AND id_mask h) s) ss d)"
  by (induction ss arbitrary: d) (simp_all add: calculate_crc_Some [OF assms])

lemma find_conflicts_eq:
  assumes "map_of (crc_calculators h) crc_name = Some c"
  shows "find_conflicts h ss crc_name =
           Inr (filter (\<lambda>(k, v). length v > 1)
                  (fold (\<lambda>s. dd_append (table_driven c s AND id_mask h) s) ss []))"
  by (simp add: find_conflicts_def bucket_strings_eq [OF assms])

subsection \<open>The assignments of a pass\<close>

lemma dict_set_new: "k \<notin> fst ` set d \<Longrightarrow> dict_set k v d = d @ [(k, v)]"
  by (induction d) auto

lemma assign_free_eq:
  assumes "distinct (filter (\<lambda>s. s \<notin> C) ss)"
    and "set (filter (\<lambda>s. s \<notin> C) ss) \<inter> fst ` set result = {}"
  shows "assign_free crc_name C ss (result, n, newly) =
           (result @ map (\<lambda>(s, i). (s, (crc_name, i)))
                       (zip (filter (\<lambda>s. s \<notin> C) ss) [n..<n + length (filter (\<lambda>s. s \<notin> C) ss)]),
            n + length (filter (\<lambda>s. s \<notin> C) ss),
            newly \<union> set (filter (\<lambda>s. s \<notin> C) ss))"
  using assms
proof (induction ss arbitrary: result n newly)
  case Nil
  show ?case by simp
next
  case (Cons s ss)
  show ?case
  proof (cases "s \<in> C")
    case True
    with Cons show ?thesis by simp
  next
    case False
    let ?U = "filter (\<lambda>s. s \<notin> C) ss"
    from False Cons.prems have new: "s \<notin> fst ` set result" by auto
    have d: "distinct ?U" using Cons.prems(1) False by simp
    have i: "set ?U \<inter> fst ` set (result @ [(s, (crc_name, n))]) = {}"
      using Cons.prems False by auto
    have u: "[n..<Suc (n + length ?U)] = n # [Suc n..<Suc (n + length ?U)]"
      by (simp add: upt_rec)
    show ?thesis
      using False Cons.IH [OF d i, of "Suc n" "insert s newly"]
      by (simp add: dict_set_new [OF new] u del: upt_Suc)
  qed
qed

subsection \<open>Order and multiplicity in lists\<close>

lemma precedes_mem: "precedes xs a b \<Longrightarrow> a \<in> set xs \<and> b \<in> set xs"
  by (induction xs) auto

lemma precedes_append:
  "precedes (xs @ ys) a b \<longleftrightarrow>
     precedes xs a b \<or> precedes ys a b \<or> (a \<in> set xs \<and> b \<in> set ys)"
  by (induction xs) auto

lemma precedes_asym: "distinct xs \<Longrightarrow> precedes xs a b \<Longrightarrow> \<not> precedes xs b a"
  by (induction xs) (auto dest: precedes_mem)

lemma precedes_irrefl: "distinct xs \<Longrightarrow> \<not> precedes xs a a"
  by (induction xs) (auto dest: precedes_mem)

lemma precedes_nth: "p < q \<Longrightarrow> q < length xs \<Longrightarrow> precedes xs (xs ! p) (xs ! q)"
proof (induction xs arbitrary: p q)
  case Nil
  then show ?case by simp
next
  case (Cons x xs)
  from Cons.prems obtain q' where q: "q = Suc q'" by (cases q) auto
  show ?case
  proof (cases p)
    case 0
    with q Cons.prems show ?thesis by simp
  next
    case (Suc p')
    with q Cons.prems Cons.IH [of p' q'] show ?thesis by simp
  qed
qed

lemma sorted_wrt_filter_precedes: "sorted_wrt (precedes S) (filter Q S)"
proof (induction S)
  case Nil
  show ?case by simp
next
  case (Cons x S)
  have mono: "sorted_wrt (precedes (x # S)) (filter Q S)"
    by (rule sorted_wrt_mono_rel [OF _ Cons.IH]) simp
  have first: "precedes (x # S) x y" if "y \<in> set S" for y
    using that by simp
  show ?case using mono first by (simp del: precedes.simps)
qed

lemma filter_length_mono:
  "(\<And>x. P x \<Longrightarrow> Q x) \<Longrightarrow> length (filter P xs) \<le> length (filter Q xs)"
  by (induction xs) auto

lemma distinct_filter_count:
  "(\<And>s. s \<in> set xs \<Longrightarrow> P s \<Longrightarrow> length (filter ((=) s) xs) \<le> 1) \<Longrightarrow> distinct (filter P xs)"
proof (induction xs)
  case Nil
  show ?case by simp
next
  case (Cons x xs)
  have IH: "distinct (filter P xs)"
  proof (rule Cons.IH)
    fix s assume "s \<in> set xs" "P s"
    with Cons.prems [of s] show "length (filter ((=) s) xs) \<le> 1"
      by (auto split: if_splits)
  qed
  show ?case
  proof (cases "P x")
    case True
    from Cons.prems [of x] True have "filter ((=) x) xs = []" by simp
    then have "x \<notin> set xs" by (auto simp: filter_empty_conv)
    with IH True show ?thesis by simp
  next
    case False
    with IH show ?thesis by simp
  qed
qed

lemma two_in_filter:
  assumes "s \<in> set xs" "t \<in> set xs" "s \<noteq> t" "P s" "P t"
  shows "2 \<le> length (filter P xs)"
proof -
  have "{s, t} \<subseteq> set (filter P xs)" using assms by simp
  then have "card {s, t} \<le> card (set (filter P xs))" by (intro card_mono) simp_all
  also have "\<dots> \<le> length (filter P xs)" by (rule card_length)
  finally show ?thesis using assms(3) by simp
qed

lemma count_one_distinct:
  "(\<And>s. s \<in> set xs \<Longrightarrow> length (filter ((=) s) xs) = 1) \<Longrightarrow> distinct xs"
  using distinct_filter_count [of xs "\<lambda>_. True"] by simp

lemma distinct_count_one:
  "distinct xs \<Longrightarrow> s \<in> set xs \<Longrightarrow> length (filter ((=) s) xs) = 1"
  by (induction xs) (auto simp: filter_empty_conv)

subsection \<open>A pass keeps the invariant\<close>

lemma cascade_inv_init: "cascade_inv h names S [] ([], S, 0)"
  by (simp add: cascade_inv_def)

lemma map_fst_entries:
  "length U = length ns \<Longrightarrow> map fst (map (\<lambda>(s, i). (s, (nm, i))) (zip U ns)) = U"
  by (induction U ns rule: list_induct2) auto

lemma map_id_entries:
  "length U = length ns \<Longrightarrow> map (snd \<circ> snd) (map (\<lambda>(s, i). (s, (nm, i))) (zip U ns)) = ns"
  by (induction U ns rule: list_induct2) auto

lemma entries_name:
  "x \<in> set (map (\<lambda>(s, i). (s, (nm, i))) (zip U ns)) \<Longrightarrow> fst (snd x) = nm \<and> fst x \<in> set U"
  by (auto dest: set_zip_leftD)

lemma pass_step:
  fixes H :: "string \<Rightarrow> int"
  assumes inv: "cascade_inv h names S tried (result, rem, n)"
    and names: "names = tried @ nm # todo" "distinct names"
    and c: "map_of (crc_calculators h) nm = Some c"
    and H: "H = (\<lambda>s. table_driven c s AND id_mask h)"
    and U: "U = filter (\<lambda>s. length (filter (\<lambda>t. H t = H s) rem) \<le> 1) rem"
    and E: "E = map (\<lambda>(s, i). (s, (nm, i))) (zip U [n..<n + length U])"
    and rem': "rem' = filter (\<lambda>s. s \<notin> set U) rem"
  shows "assign_loop h (nm # todo) (result, rem, n) =
           (if rem' = [] then Inr (result @ E, rem', n + length U)
            else assign_loop h todo (result @ E, rem', n + length U))"
    and "cascade_inv h names S (tried @ [nm]) (result @ E, rem', n + length U)"
proof -
  let ?keys = "fst ` set result"
  let ?C = "{s \<in> set rem. 1 < length (filter (\<lambda>t. H t = H s) rem)}"
  from inv have I1: "rem = filter (\<lambda>s. s \<notin> ?keys) S"
    and I2: "distinct (map fst result)"
    and I3: "?keys \<subseteq> set S"
    and I4: "\<forall>s \<in> ?keys. length (filter ((=) s) S) = 1"
    and I5: "map (snd \<circ> snd) result = [0..<n]"
    and I6: "\<forall>x \<in> set result. fst (snd x) \<in> set tried"
    and I7: "sorted_wrt (assigned_before names S) result"
    and I8: "\<forall>x \<in> set result. \<forall>y \<in> set result.
           fst (snd x) = fst (snd y) \<and> fst x \<noteq> fst y \<longrightarrow>
           calculate_crc h (fst x) (fst (snd x)) \<noteq> calculate_crc h (fst y) (fst (snd y))"
    by (simp_all add: cascade_inv_def)
  have Ueq: "filter (\<lambda>s. s \<notin> ?C) rem = U"
    unfolding U by (rule filter_cong) auto
  have Urem: "set U \<subseteq> set rem" unfolding U by auto
  have remS: "set rem \<subseteq> set S" using I1 by auto
  have remkeys: "set rem \<inter> ?keys = {}"
  proof -
    have "set rem = {s \<in> set S. s \<notin> ?keys}" by (subst I1) simp
    then show ?thesis by auto
  qed
  have Uhash: "length (filter (\<lambda>t. H t = H s) rem) \<le> 1" if "s \<in> set U" for s
    using that unfolding U by simp
  have cnt: "length (filter ((=) s) rem) \<le> 1" if "s \<in> set U" for s
  proof -
    have "length (filter ((=) s) rem) \<le> length (filter (\<lambda>t. H t = H s) rem)"
      by (rule filter_length_mono) simp
    with Uhash [OF that] show ?thesis by simp
  qed
  have dU: "distinct U"
    unfolding U
  proof (rule distinct_filter_count)
    fix s assume "s \<in> set rem" "length (filter (\<lambda>t. H t = H s) rem) \<le> 1"
    then have "s \<in> set U" unfolding U by simp
    then show "length (filter ((=) s) rem) \<le> 1" by (rule cnt)
  qed
  have disj: "set U \<inter> ?keys = {}" using Urem remkeys by auto
  have fstE: "map fst E = U" unfolding E by (rule map_fst_entries) simp
  have idE: "map (snd \<circ> snd) E = [n..<n + length U]" unfolding E by (rule map_id_entries) simp
  have keysE: "fst ` set E = set U" using fstE by (metis set_map)
  have nameE: "fst (snd x) = nm \<and> fst x \<in> set U" if "x \<in> set E" for x
    using that unfolding E by (rule entries_name)

  have fc: "find_conflicts h rem nm =
      Inr (filter (\<lambda>(k, v). length v > 1) (fold (\<lambda>s. dd_append (H s) s) rem []))"
    unfolding H by (rule find_conflicts_eq [OF c])
  have af: "assign_free nm ?C rem (result, n, {}) = (result @ E, n + length U, set U)"
    using assign_free_eq [of ?C rem result nm n "{}"] dU disj
    unfolding Ueq E by simp
  show "assign_loop h (nm # todo) (result, rem, n) =
           (if rem' = [] then Inr (result @ E, rem', n + length U)
            else assign_loop h todo (result @ E, rem', n + length U))"
    by (simp only: assign_loop.simps fc sum.case conflicted_set af prod.case Let_def rem')

  have J1: "rem' = filter (\<lambda>s. s \<notin> fst ` set (result @ E)) S"
  proof -
    have "rem' = filter (\<lambda>s. s \<notin> set U) (filter (\<lambda>s. s \<notin> ?keys) S)"
      unfolding rem' by (subst I1) simp
    also have "\<dots> = filter (\<lambda>s. s \<notin> fst ` set (result @ E)) S"
      unfolding filter_filter by (rule filter_cong) (auto simp: keysE image_Un)
    finally show ?thesis .
  qed
  have J2: "distinct (map fst (result @ E))"
    using I2 dU disj by (auto simp: fstE)
  have J3: "fst ` set (result @ E) \<subseteq> set S"
    using I3 Urem remS by (auto simp: keysE image_Un)
  have cntS: "length (filter ((=) s) S) = 1" if s: "s \<in> set U" for s
  proof -
    have notkey: "s \<notin> ?keys" using s disj by auto
    have "filter ((=) s) rem = filter ((=) s) (filter (\<lambda>s. s \<notin> ?keys) S)"
      by (subst I1) simp
    also have "\<dots> = filter ((=) s) S"
      unfolding filter_filter by (rule filter_cong) (use notkey in auto)
    finally have eq: "filter ((=) s) rem = filter ((=) s) S" .
    have "s \<in> set rem" using s Urem by auto
    then have "filter ((=) s) rem \<noteq> []" by (auto simp: filter_empty_conv)
    then have "1 \<le> length (filter ((=) s) rem)" by (cases "filter ((=) s) rem") auto
    with cnt [OF s] show ?thesis unfolding eq by simp
  qed
  have J4: "\<forall>s \<in> fst ` set (result @ E). length (filter ((=) s) S) = 1"
    using I4 cntS by (auto simp: keysE image_Un)
  have J5: "map (snd \<circ> snd) (result @ E) = [0..<n + length U]"
    using I5 idE upt_add_eq_append [of 0 n "length U"] by simp
  have J6: "\<forall>x \<in> set (result @ E). fst (snd x) \<in> set (tried @ [nm])"
    using I6 nameE by auto
  have nm_new: "nm \<notin> set tried" using names by auto
  have J7: "sorted_wrt (assigned_before names S) (result @ E)"
  proof -
    have sU: "sorted_wrt (precedes S) U"
    proof -
      define P where "P = (\<lambda>s. length (filter (\<lambda>t. H t = H s) rem) \<le> 1)"
      have "U = filter P rem" unfolding U P_def ..
      also have "\<dots> = filter P (filter (\<lambda>s. s \<notin> ?keys) S)"
        by (subst I1) (rule refl)
      also have "\<dots> = filter (\<lambda>s. s \<notin> ?keys \<and> P s) S"
        by (simp only: filter_filter)
      finally show ?thesis by (simp only: sorted_wrt_filter_precedes)
    qed
    have "sorted_wrt (\<lambda>x y. precedes S (fst x) (fst y)) E"
      using sU unfolding fstE [symmetric] sorted_wrt_map .
    then have sE: "sorted_wrt (assigned_before names S) E"
    proof (rule sorted_wrt_mono_rel [rotated])
      fix x y assume "x \<in> set E" "y \<in> set E" "precedes S (fst x) (fst y)"
      then show "assigned_before names S x y"
        using nameE by (simp add: assigned_before_def)
    qed
    have cross: "assigned_before names S x y" if "x \<in> set result" "y \<in> set E" for x y
    proof -
      from that I6 have "fst (snd x) \<in> set tried" by blast
      moreover from that nameE have "fst (snd y) = nm" by blast
      ultimately have "precedes names (fst (snd x)) (fst (snd y))"
        unfolding names(1) precedes_append by simp
      then show ?thesis by (simp add: assigned_before_def)
    qed
    show ?thesis using I7 sE cross by (simp add: sorted_wrt_append)
  qed
  have J8: "\<forall>x \<in> set (result @ E). \<forall>y \<in> set (result @ E).
           fst (snd x) = fst (snd y) \<and> fst x \<noteq> fst y \<longrightarrow>
           calculate_crc h (fst x) (fst (snd x)) \<noteq> calculate_crc h (fst y) (fst (snd y))"
  proof (intro ballI impI)
    fix x y
    assume x: "x \<in> set (result @ E)" and y: "y \<in> set (result @ E)"
      and xy: "fst (snd x) = fst (snd y) \<and> fst x \<noteq> fst y"
    consider (old) "x \<in> set result" "y \<in> set result"
      | (new) "x \<in> set E" "y \<in> set E"
      | (mixed) "x \<in> set result \<and> y \<in> set E \<or> x \<in> set E \<and> y \<in> set result"
      using x y by auto
    then show "calculate_crc h (fst x) (fst (snd x)) \<noteq> calculate_crc h (fst y) (fst (snd y))"
    proof cases
      case old
      with I8 xy show ?thesis by blast
    next
      case new
      with nameE have nx: "fst (snd x) = nm" "fst x \<in> set U" and ny: "fst (snd y) = nm" "fst y \<in> set U"
        by blast+
      have "H (fst x) \<noteq> H (fst y)"
      proof
        assume eq: "H (fst x) = H (fst y)"
        have "2 \<le> length (filter (\<lambda>t. H t = H (fst x)) rem)"
          by (rule two_in_filter [of "fst x" rem "fst y"]) (use nx ny Urem xy eq in auto)
        with Uhash [OF nx(2)] show False by simp
      qed
      then show ?thesis
        by (simp add: nx ny calculate_crc_Some [OF c] H)
    next
      case mixed
      with I6 nameE nm_new xy show ?thesis by metis
    qed
  qed
  show "cascade_inv h names S (tried @ [nm]) (result @ E, rem', n + length U)"
    unfolding cascade_inv_def using J1 J2 J3 J4 J5 J6 J7 J8 by simp
qed

section \<open>The cascade\<close>

lemma assign_loop_inv:
  assumes "cascade_inv h names S tried st" and "names = tried @ todo" and "distinct names"
    and "set todo \<subseteq> fst ` set (crc_calculators h)"
  shows "\<exists>st' tried' todo'. assign_loop h todo st = Inr st' \<and> cascade_inv h names S tried' st' \<and>
           names = tried' @ todo'"
  using assms
proof (induction todo arbitrary: tried st)
  case Nil
  then show ?case by auto
next
  case (Cons nm todo)
  obtain result rem n where st: "st = (result, rem, n)" by (cases st) auto
  from Cons.prems(4) have "nm \<in> fst ` set (crc_calculators h)" by simp
  then obtain c where c: "map_of (crc_calculators h) nm = Some c"
    by (metis map_of_eq_None_iff not_None_eq)
  define H where "H = (\<lambda>s. table_driven c s AND id_mask h)"
  define U where "U = filter (\<lambda>s. length (filter (\<lambda>t. H t = H s) rem) \<le> 1) rem"
  define E where "E = map (\<lambda>(s, i). (s, (nm, i))) (zip U [n..<n + length U])"
  define rem' where "rem' = filter (\<lambda>s. s \<notin> set U) rem"
  note step = pass_step [OF Cons.prems(1) [unfolded st] Cons.prems(2,3) c H_def U_def E_def rem'_def]
  show ?case
  proof (cases "rem' = []")
    case True
    with step(1) have "assign_loop h (nm # todo) st = Inr (result @ E, rem', n + length U)"
      by (simp add: st)
    moreover have "names = (tried @ [nm]) @ todo" using Cons.prems(2) by simp
    ultimately show ?thesis using step(2) by blast
  next
    case False
    with step(1) have eq: "assign_loop h (nm # todo) st =
        assign_loop h todo (result @ E, rem', n + length U)"
      by (simp add: st)
    have "names = (tried @ [nm]) @ todo" using Cons.prems(2) by simp
    from Cons.IH [OF step(2) this Cons.prems(3)] Cons.prems(4)
    show ?thesis unfolding eq by simp
  qed
qed

lemma assign_hash_functions_run:
  assumes "distinct (map fst (crc_calculators h))"
  shows "\<exists>result rem n tried todo.
           assign_loop h (map fst (crc_calculators h)) ([], S, 0) = Inr (result, rem, n) \<and>
           cascade_inv h (map fst (crc_calculators h)) S tried (result, rem, n) \<and>
           map fst (crc_calculators h) = tried @ todo \<and>
           assign_hash_functions h S =
             (if rem = [] then Inr result else Inl (UnresolvableConflicts (length rem)))"
proof -
  let ?names = "map fst (crc_calculators h)"
  from assign_loop_inv [OF cascade_inv_init, of ?names ?names h S] assms
  obtain st' tried' todo' where r: "assign_loop h ?names ([], S, 0) = Inr st'"
    "cascade_inv h ?names S tried' st'" "?names = tried' @ todo'"
    by auto
  obtain result rem n where st': "st' = (result, rem, n)" by (cases st') auto
  have "assign_hash_functions h S =
      (if rem = [] then Inr result else Inl (UnresolvableConflicts (length rem)))"
    by (simp add: assign_hash_functions_def r(1) st')
  with r show ?thesis unfolding st' by blast
qed

lemma init_calculators_distinct:
  "init m = Inr h \<Longrightarrow> distinct (map fst (crc_calculators h))"
  using init_names [of m h] init_fields(8) [of m h] by simp

lemma cascade_success:
  assumes inv: "cascade_inv h names S tried (result, [], n)"
  shows "distinct S" and "fst ` set result = set S" and "length result = length S"
    and "n = length S"
proof -
  from inv have I1: "[] = filter (\<lambda>s. s \<notin> fst ` set result) S"
    and I2: "distinct (map fst result)"
    and I3: "fst ` set result \<subseteq> set S"
    and I4: "\<forall>s \<in> fst ` set result. length (filter ((=) s) S) = 1"
    and I5: "map (snd \<circ> snd) result = [0..<n]"
    by (simp_all add: cascade_inv_def)
  from I1 have "set S \<subseteq> fst ` set result"
    by (metis (mono_tags, lifting) filter_empty_conv subsetI)
  with I3 show keys: "fst ` set result = set S" by auto
  show dS: "distinct S"
    by (rule count_one_distinct) (use I4 keys in auto)
  have "length result = length (map fst result)" by simp
  also have "\<dots> = card (set (map fst result))" using I2 by (simp only: distinct_card)
  also have "\<dots> = card (set S)" using keys by simp
  also have "\<dots> = length S" using dS by (simp only: distinct_card)
  finally show len: "length result = length S" .
  from I5 have "length result = n" by (metis length_map length_upt minus_nat.diff_0)
  with len show "n = length S" by simp
qed

lemma assigned_before_asym:
  assumes "distinct names" and "distinct S" and "assigned_before names S x y"
  shows "\<not> assigned_before names S y x"
  using assms precedes_asym [of names] precedes_asym [of S] precedes_irrefl [of names]
  unfolding assigned_before_def by metis

lemma result_entry_position:
  assumes "map (snd \<circ> snd) result = [0..<n]" and "(s, (a, i)) \<in> set result"
  shows "i < length result \<and> result ! i = (s, (a, i))"
proof -
  from assms(2) obtain k where k: "k < length result" "result ! k = (s, (a, i))"
    by (auto simp: in_set_conv_nth)
  have len: "length result = n" using assms(1) by (metis length_map length_upt minus_nat.diff_0)
  have "(map (snd \<circ> snd) result) ! k = [0..<n] ! k" using assms(1) by simp
  then have "snd (snd (result ! k)) = k" using k(1) len by simp
  with k show ?thesis by simp
qed

lemma assign_success:
  assumes "init m = Inr h" and "assign_hash_functions h S = Inr result"
  shows "\<exists>tried todo n. cascade_inv h (map fst (polynomials h)) S tried (result, [], n) \<and>
           map fst (polynomials h) = tried @ todo"
proof -
  from assign_hash_functions_run [OF init_calculators_distinct [OF assms(1)], of S]
  obtain r rem n tried todo where
    r: "cascade_inv h (map fst (crc_calculators h)) S tried (r, rem, n)"
       "map fst (crc_calculators h) = tried @ todo"
       "assign_hash_functions h S = (if rem = [] then Inr r else Inl (UnresolvableConflicts (length rem)))"
    by blast
  from r(3) assms(2) have "rem = []" "r = result" by (auto split: if_splits)
  with r(1,2) show ?thesis unfolding init_names [OF assms(1)] by blast
qed


text \<open>
  Claim C6. When the hasher has been constructed and the assignment succeeds, two
  distinct symbols with the same polynomial \<open>p\<close> have different CRC values under
  \<open>p\<close> after masking with \<open>id_mask\<close>, and hence different unmasked CRC values.
\<close>

theorem perfect_hash_per_polynomial:
  assumes "init m = Inr h" and "assign_hash_functions h S = Inr result"
    and "(s, (p, i)) \<in> set result" and "(t, (p, j)) \<in> set result" and "s \<noteq> t"
  shows "\<exists>c. map_of (crc_calculators h) p = Some c \<and>
           calculate_crc h s p = Inr (table_driven c s AND id_mask h) \<and>
           calculate_crc h t p = Inr (table_driven c t AND id_mask h) \<and>
           table_driven c s AND id_mask h \<noteq> table_driven c t AND id_mask h \<and>
           table_driven c s \<noteq> table_driven c t"
proof -
  from assign_success [OF assms(1,2)] obtain tried todo n where
    inv: "cascade_inv h (map fst (polynomials h)) S tried (result, [], n)"
    and names: "map fst (polynomials h) = tried @ todo"
    by blast
  from inv have I6: "\<forall>x \<in> set result. fst (snd x) \<in> set tried"
    and I8: "\<forall>x \<in> set result. \<forall>y \<in> set result.
           fst (snd x) = fst (snd y) \<and> fst x \<noteq> fst y \<longrightarrow>
           calculate_crc h (fst x) (fst (snd x)) \<noteq> calculate_crc h (fst y) (fst (snd y))"
    by (simp_all add: cascade_inv_def)
  from I6 assms(3) have "fst (snd (s, (p, i))) \<in> set tried" by (rule bspec)
  then have "p \<in> set tried" by simp
  with names have "p \<in> set (map fst (polynomials h))" by simp
  then obtain c where c: "map_of (crc_calculators h) p = Some c"
    using make_calculators_lookup init_fields(6) [OF assms(1)] by metis
  from I8 assms(3) have "\<forall>y \<in> set result.
           fst (snd (s, (p, i))) = fst (snd y) \<and> fst (s, (p, i)) \<noteq> fst y \<longrightarrow>
           calculate_crc h (fst (s, (p, i))) (fst (snd (s, (p, i)))) \<noteq> calculate_crc h (fst y) (fst (snd y))"
    by (rule bspec)
  from bspec [OF this assms(4)] assms(5)
  have "calculate_crc h s p \<noteq> calculate_crc h t p" by simp
  then have ne: "table_driven c s AND id_mask h \<noteq> table_driven c t AND id_mask h"
    by (simp add: calculate_crc_Some [OF c])
  then have "table_driven c s \<noteq> table_driven c t" by auto
  with c ne show ?thesis by (simp add: calculate_crc_Some [OF c])
qed

text \<open>
  Claim C3. When the assignment of \<open>N\<close> input symbols succeeds, the symbols are
  pairwise distinct, each has exactly one assignment, the identifiers are exactly
  \<open>{0, \<dots>, N - 1}\<close>, and a symbol whose polynomial has the smaller position in the
  hasher's list, or the same polynomial and the smaller input position, has the
  strictly smaller identifier.
\<close>

theorem dense_ordered_ids:
  assumes "init m = Inr h" and "assign_hash_functions h S = Inr result"
  shows "distinct S \<and> distinct (map fst result) \<and> fst ` set result = set S \<and>
         length result = length S \<and>
         snd ` snd ` set result = {0..<length S} \<and>
         (\<forall>p q x y i j.
            p < length S \<and> q < length S \<and>
            x < length (polynomials h) \<and> y < length (polynomials h) \<and>
            map_of result (S ! p) = Some (map fst (polynomials h) ! x, i) \<and>
            map_of result (S ! q) = Some (map fst (polynomials h) ! y, j) \<and>
            (x < y \<or> (x = y \<and> p < q)) \<longrightarrow> i < j)"
proof -
  let ?names = "map fst (polynomials h)"
  from assign_success [OF assms] obtain tried todo n where
    inv: "cascade_inv h ?names S tried (result, [], n)"
    by blast
  note suc = cascade_success [OF inv]
  from inv have I2: "distinct (map fst result)"
    and I5: "map (snd \<circ> snd) result = [0..<n]"
    and I7: "sorted_wrt (assigned_before ?names S) result"
    by (simp_all add: cascade_inv_def)
  have dn: "distinct ?names" by (rule init_fields(8) [OF assms(1)])
  have ids: "snd ` snd ` set result = {0..<length S}"
  proof -
    have "snd ` snd ` set result = set (map (snd \<circ> snd) result)"
      by (simp add: image_image)
    also have "\<dots> = {0..<length S}" unfolding I5 suc(4) by simp
    finally show ?thesis .
  qed
  have order: "i < j"
    if h: "p < length S \<and> q < length S \<and> x < length (polynomials h) \<and> y < length (polynomials h) \<and>
       map_of result (S ! p) = Some (?names ! x, i) \<and>
       map_of result (S ! q) = Some (?names ! y, j) \<and> (x < y \<or> (x = y \<and> p < q))"
    for p q x y i j
  proof -
    let ?e = "(S ! p, (?names ! x, i))" and ?f = "(S ! q, (?names ! y, j))"
    from h have "?e \<in> set result" "?f \<in> set result" by (auto dest: map_of_SomeD)
    from result_entry_position [OF I5 this(1)] result_entry_position [OF I5 this(2)]
    have pos: "i < length result" "result ! i = ?e" "j < length result" "result ! j = ?f"
      by simp_all
    have before: "assigned_before ?names S ?e ?f"
    proof (cases "x < y")
      case True
      with h have "precedes ?names (?names ! x) (?names ! y)" by (intro precedes_nth) simp_all
      then show ?thesis by (simp add: assigned_before_def)
    next
      case False
      with h have "x = y" "p < q" by auto
      with h have "precedes S (S ! p) (S ! q)" by (intro precedes_nth) simp_all
      with \<open>x = y\<close> show ?thesis by (simp add: assigned_before_def)
    qed
    show "i < j"
    proof (rule ccontr)
      assume "\<not> i < j"
      then consider "j < i" | "i = j" by linarith
      then show False
      proof cases
        case 1
        from sorted_wrt_nth_less [OF I7 1 pos(1)]
        have "assigned_before ?names S ?f ?e" by (simp add: pos)
        with assigned_before_asym [OF dn suc(1) before] show False by simp
      next
        case 2
        with pos have "?e = ?f" by simp
        with assigned_before_asym [OF dn suc(1) before] before show False by simp
      qed
    qed
  qed
  show ?thesis
  proof (intro conjI allI impI)
    show "distinct S" by (rule suc(1))
    show "distinct (map fst result)" by (rule I2)
    show "fst ` set result = set S" by (rule suc(2))
    show "length result = length S" by (rule suc(3))
    show "snd ` snd ` set result = {0..<length S}" by (rule ids)
  next
    fix p q x y i j
    assume "p < length S \<and> q < length S \<and>
            x < length (polynomials h) \<and> y < length (polynomials h) \<and>
            map_of result (S ! p) = Some (map fst (polynomials h) ! x, i) \<and>
            map_of result (S ! q) = Some (map fst (polynomials h) ! y, j) \<and>
            (x < y \<or> (x = y \<and> p < q))"
    then show "i < j" by (rule order)
  qed
qed

text \<open>What the loop leaves over, and when the assignment fails.\<close>

lemma cascade_remaining:
  assumes "init m = Inr h"
  shows "\<exists>result remaining n.
           assign_loop h (map fst (crc_calculators h)) ([], S, 0) = Inr (result, remaining, n) \<and>
           remaining = filter (\<lambda>s. s \<notin> fst ` set result) S \<and>
           assign_hash_functions h S =
             (if remaining = [] then Inr result
              else Inl (UnresolvableConflicts (length remaining))) \<and>
           (\<not> distinct S \<longrightarrow>
              2 \<le> length remaining \<and>
              assign_hash_functions h S = Inl (UnresolvableConflicts (length remaining)))"
proof -
  from assign_hash_functions_run [OF init_calculators_distinct [OF assms], of S]
  obtain result rem n tried todo where
    r: "assign_loop h (map fst (crc_calculators h)) ([], S, 0) = Inr (result, rem, n)"
       "cascade_inv h (map fst (crc_calculators h)) S tried (result, rem, n)"
       "assign_hash_functions h S = (if rem = [] then Inr result else Inl (UnresolvableConflicts (length rem)))"
    by blast
  let ?keys = "fst ` set result"
  from r(2) have I1: "rem = filter (\<lambda>s. s \<notin> ?keys) S"
    and I4: "\<forall>s \<in> ?keys. length (filter ((=) s) S) = 1"
    by (simp_all add: cascade_inv_def)
  have dup: "2 \<le> length rem" if "\<not> distinct S"
  proof -
    from that count_one_distinct [of S]
    obtain s where s: "s \<in> set S" "length (filter ((=) s) S) \<noteq> 1" by blast
    from s(1) have "filter ((=) s) S \<noteq> []" by (auto simp: filter_empty_conv)
    then have "1 \<le> length (filter ((=) s) S)" by (cases "filter ((=) s) S") auto
    with s(2) have two: "2 \<le> length (filter ((=) s) S)" by simp
    from s(2) I4 have notkey: "s \<notin> ?keys" by blast
    have "filter ((=) s) rem = filter ((=) s) (filter (\<lambda>s. s \<notin> ?keys) S)"
      by (subst I1) simp
    also have "\<dots> = filter ((=) s) S"
      unfolding filter_filter by (rule filter_cong) (use notkey in auto)
    finally have eq: "filter ((=) s) rem = filter ((=) s) S" .
    have "length (filter ((=) s) rem) \<le> length rem" by (rule length_filter_le)
    with two show ?thesis unfolding eq by simp
  qed
  have fails: "assign_hash_functions h S = Inl (UnresolvableConflicts (length rem))"
    if "\<not> distinct S"
  proof -
    from dup [OF that] have "rem \<noteq> []" by auto
    with r(3) show ?thesis by simp
  qed
  show ?thesis
  proof (intro exI conjI impI)
    show "assign_loop h (map fst (crc_calculators h)) ([], S, 0) = Inr (result, rem, n)"
      by (rule r(1))
    show "rem = filter (\<lambda>s. s \<notin> fst ` set result) S" by (rule I1)
    show "assign_hash_functions h S =
        (if rem = [] then Inr result else Inl (UnresolvableConflicts (length rem)))"
      by (rule r(3))
    show "2 \<le> length rem" if "\<not> distinct S" using that by (rule dup)
    show "assign_hash_functions h S = Inl (UnresolvableConflicts (length rem))"
      if "\<not> distinct S" using that by (rule fails)
  qed
qed

section \<open>A worked example: capacity 8 and the symbols F, A, H\<close>

lemma calculators_8:
  "map fst (crc_calculators (projr (init 8))) =
     [''CRC-8F-3'', ''CRC-8K-3'', ''SAE-J1850'', ''CCITT-8'', ''CRC-8F-8'',
      ''CRC-8-AUTOSAR'', ''CRC-8-Bluetooth'', ''WCDMA-8'']"
  by (simp add: init_8 make_calculators_names)

lemma masked_crc_8:
  "calculate_crc (projr (init 8)) ''F'' ''CRC-8F-3'' = Inr 1"
  "calculate_crc (projr (init 8)) ''A'' ''CRC-8F-3'' = Inr 5"
  "calculate_crc (projr (init 8)) ''H'' ''CRC-8F-3'' = Inr 1"
  "calculate_crc (projr (init 8)) ''F'' ''CRC-8K-3'' = Inr 5"
  "calculate_crc (projr (init 8)) ''H'' ''CRC-8K-3'' = Inr 4"
  by (simp_all add: init_8 calculate_crc_def dict_get_def make_calculators_def
        table_driven_def crc_byte_def crc_step_def crc_mask_def upt_rec bit_numeral_simps)

lemma assign_FAH:
  "assign_hash_functions (projr (init 8)) [''F'', ''A'', ''H''] =
     Inr [(''A'', (''CRC-8F-3'', 0)), (''F'', (''CRC-8K-3'', 1)), (''H'', (''CRC-8K-3'', 2))]"
  by (simp add: assign_hash_functions_def calculators_8 find_conflicts_def masked_crc_8)

section \<open>Processing a file\<close>

lemma hex_strings_of_total: "\<exists>hex. hex_strings_of fmt strings = Inr hex \<and> length hex = length strings"
proof (cases fmt)
  case Ascii
  then show ?thesis by (simp add: hex_strings_of_ascii)
next
  case Hex
  then show ?thesis by (simp add: hex_strings_of_def)
qed

lemma get_poly_index_groups_errors:
  "get_poly_index_groups grps p = Inl e \<Longrightarrow> e = KeyError"
  by (induction grps) (auto split: if_splits option.splits)

lemma get_poly_index_errors: "get_poly_index p = Inl e \<Longrightarrow> e = KeyError"
  unfolding get_poly_index_def by (rule get_poly_index_groups_errors)

lemma get_poly_index_not_too_many: "get_poly_index p \<noteq> Inl TooManySymbols"
  using get_poly_index_errors [of p TooManySymbols] by auto

lemma write_table_not_too_many: "write_table h asg tbl \<noteq> Inl TooManySymbols"
proof (induction asg arbitrary: tbl)
  case Nil
  show ?case by simp
next
  case (Cons a asg)
  obtain s nm i where a: "a = (s, (nm, i))" by (cases a) auto
  show ?case
    unfolding a using Cons.IH
    by (auto simp: calculate_crc_def dict_get_def to_bytes_little_def Let_def
        split: sum.splits option.splits dest: get_poly_index_errors)
qed

lemma fill_hash_table_not_too_many:
  "fill_hash_table fmt L asg ss ht \<noteq> Inl TooManySymbols"
proof (induction ss arbitrary: ht)
  case Nil
  show ?case by simp
next
  case (Cons s ss)
  show ?case
    using Cons.IH
    by (auto simp: dict_get_def pad_symbol_def to_bytes_little_def
        split: sum.splits option.splits)
qed

lemma process_file_too_many:
  assumes h: "init m = Inr h" and ascii: "list_all is_ascii lines"
    and clean: "clean_lines fmt 0 lines [] = Inr strings"
  shows "process_file h fmt lines = Inl TooManySymbols \<longleftrightarrow> max_ids h < length strings"
proof (cases "max_ids h < length strings")
  case True
  then show ?thesis by (simp add: process_file_def ascii clean)
next
  case False
  obtain hex where hex: "hex_strings_of fmt strings = Inr hex"
    using hex_strings_of_total by blast
  from cascade_remaining [OF h, of hex]
  have asg: "assign_hash_functions h hex \<noteq> Inl TooManySymbols"
    by (auto split: if_splits)
  have "process_file h fmt lines \<noteq> Inl TooManySymbols"
  proof (cases "assign_hash_functions h hex")
    case (Inl e)
    with asg have "e \<noteq> TooManySymbols" by auto
    with False Inl show ?thesis by (simp add: process_file_def ascii clean hex)
  next
    case asg_ok: (Inr a)
    show ?thesis
    proof (cases "write_table h a (hash_table_bin h)")
      case (Inl e)
      with write_table_not_too_many [of h a "hash_table_bin h"] have "e \<noteq> TooManySymbols"
        by auto
      with False asg_ok Inl show ?thesis by (simp add: process_file_def ascii clean hex)
    next
      case tbl_ok: (Inr tbl)
      show ?thesis
      proof (cases "fill_hash_table fmt (line_size_of strings) a strings (hash_table h)")
        case (Inl e)
        with fill_hash_table_not_too_many [of fmt "line_size_of strings" a strings "hash_table h"]
        have "e \<noteq> TooManySymbols" by auto
        with False asg_ok tbl_ok Inl show ?thesis
          by (simp add: process_file_def ascii clean hex)
      next
        case (Inr ht)
        with False asg_ok tbl_ok show ?thesis
          by (simp add: process_file_def ascii clean hex)
      qed
    qed
  qed
  with False show ?thesis by simp
qed


section \<open>The worked example as a build\<close>

lemma clean_FAH: "clean_lines Ascii 0 [''F'', ''A'', ''H''] [] = Inr [''F'', ''A'', ''H'']"
  by (simp add: strip_def py_isspace_def)

lemma ascii_FAH: "list_all is_ascii [''F'', ''A'', ''H'']"
  by (simp add: is_ascii_def)

lemma hex_FAH: "hex_strings_of Ascii [''F'', ''A'', ''H''] = Inr [''F'', ''A'', ''H'']"
  by (simp add: hex_strings_of_ascii line_size_of_def)

lemma poly_index_8:
  "get_poly_index ''CRC-8F-3'' = Inr (Some 0)" "get_poly_index ''CRC-8K-3'' = Inr (Some 1)"
  by (simp_all add: get_poly_index_def KOOPMAN_POLYNOMIALS_def)

lemma le_bytes_4:
  "le_bytes 4 n = [char_of n, char_of (n div 256), char_of (n div 256 div 256),
                   char_of (n div 256 div 256 div 256)]"
proof -
  have four: "(4::nat) = Suc (Suc (Suc (Suc 0)))" by simp
  show ?thesis by (subst four) simp
qed

lemma fields_8:
  "crc_width (projr (init 8)) = 8" "hash_table_bin (projr (init 8)) = replicate 256 (CHR 0x00)"
  "hash_table (projr (init 8)) = []" "max_ids (projr (init 8)) = 8"
  by (simp_all add: init_8)

lemma slice_assign_inside:
  "i \<le> j \<Longrightarrow> j \<le> length b \<Longrightarrow> slice_assign b i j v = take i b @ v @ drop j b"
  by (simp add: slice_assign_def slice_bounds_def Let_def min_def max_def)

lemma slice_assign_beyond:
  "length b \<le> i \<Longrightarrow> i \<le> j \<Longrightarrow> slice_assign b i j v = b @ v"
  by (simp add: slice_assign_def slice_bounds_def Let_def min_def max_def)

lemma slice_get_beyond: "length b \<le> i \<Longrightarrow> slice_get b i j = []"
  by (simp add: slice_get_def slice_bounds_def Let_def min_def max_def)

lemma write_table_Cons:
  assumes "get_poly_index nm = Inr (Some idx)" and "calculate_crc h s nm = Inr v"
    and "nat (int i OR push_bit (crc_width h) 1) = c" and "c < 256 ^ 4"
    and "nat (push_bit (crc_width h) (int idx) OR v) = addr"
  shows "write_table h ((s, (nm, i)) # rest) tbl =
           write_table h rest (slice_assign tbl (addr * 4) ((addr + 1) * 4) (le_bytes 4 c))"
  using assms by (simp add: to_bytes_little_def Let_def)

lemma entry_bytes:
  "le_bytes 4 256 = [CHR 0x00, CHR 0x01, CHR 0x00, CHR 0x00]"
  "le_bytes 4 257 = [CHR 0x01, CHR 0x01, CHR 0x00, CHR 0x00]"
  "le_bytes 4 258 = [CHR 0x02, CHR 0x01, CHR 0x00, CHR 0x00]"
  by (simp_all add: le_bytes_4 char_of_eq_iff)


lemma write_FAH:
  "write_table (projr (init 8))
     [(''A'', (''CRC-8F-3'', 0)), (''F'', (''CRC-8K-3'', 1)), (''H'', (''CRC-8K-3'', 2))]
     (replicate 256 (CHR 0x00)) =
   Inr (replicate 20 (CHR 0x00) @ [CHR 0x00, CHR 0x01, CHR 0x00, CHR 0x00] @
        replicate 232 (CHR 0x00) @ [CHR 0x01, CHR 0x01, CHR 0x00, CHR 0x00] @
        [CHR 0x02, CHR 0x01, CHR 0x00, CHR 0x00])"
proof -
  let ?h = "projr (init 8)"
  let ?t0 = "replicate 256 (CHR 0x00)"
  let ?t1 = "replicate 20 (CHR 0x00) @ [CHR 0x00, CHR 0x01, CHR 0x00, CHR 0x00] @
             replicate 232 (CHR 0x00)"
  let ?t2 = "?t1 @ [CHR 0x01, CHR 0x01, CHR 0x00, CHR 0x00]"
  let ?t3 = "?t2 @ [CHR 0x02, CHR 0x01, CHR 0x00, CHR 0x00]"
  have s1: "write_table ?h
      [(''A'', (''CRC-8F-3'', 0)), (''F'', (''CRC-8K-3'', 1)), (''H'', (''CRC-8K-3'', 2))] ?t0 =
    write_table ?h [(''F'', (''CRC-8K-3'', 1)), (''H'', (''CRC-8K-3'', 2))]
      (slice_assign ?t0 (5 * 4) ((5 + 1) * 4) (le_bytes 4 256))"
    by (rule write_table_Cons [where idx = 0 and v = 5])
       (simp_all add: poly_index_8 masked_crc_8 fields_8)
  have t1: "slice_assign ?t0 (5 * 4) ((5 + 1) * 4) (le_bytes 4 256) = ?t1"
    by (simp add: slice_assign_inside entry_bytes)
  have s2: "write_table ?h [(''F'', (''CRC-8K-3'', 1)), (''H'', (''CRC-8K-3'', 2))] ?t1 =
    write_table ?h [(''H'', (''CRC-8K-3'', 2))]
      (slice_assign ?t1 (261 * 4) ((261 + 1) * 4) (le_bytes 4 257))"
    by (rule write_table_Cons [where idx = 1 and v = 5])
       (simp_all add: poly_index_8 masked_crc_8 fields_8)
  have t2: "slice_assign ?t1 (261 * 4) ((261 + 1) * 4) (le_bytes 4 257) = ?t2"
    by (simp add: slice_assign_beyond entry_bytes)
  have s3: "write_table ?h [(''H'', (''CRC-8K-3'', 2))] ?t2 =
    write_table ?h [] (slice_assign ?t2 (260 * 4) ((260 + 1) * 4) (le_bytes 4 258))"
    by (rule write_table_Cons [where idx = 1 and v = 4])
       (simp_all add: poly_index_8 masked_crc_8 fields_8)
  have t3: "slice_assign ?t2 (260 * 4) ((260 + 1) * 4) (le_bytes 4 258) = ?t3"
    by (simp add: slice_assign_beyond entry_bytes)
  show ?thesis
    unfolding s1 t1 s2 t2 s3 t3 by simp
qed


lemma fill_FAH:
  "fill_hash_table Ascii 1
     [(''A'', (''CRC-8F-3'', 0)), (''F'', (''CRC-8K-3'', 1)), (''H'', (''CRC-8K-3'', 2))]
     [''F'', ''A'', ''H''] [] = Inr [(''F'', 1), (''A'', 0), (''H'', 2)]"
  by (simp add: pad_symbol_eq dict_get_def)

lemma init_8_Inr: "init 8 = Inr (projr (init 8))"
  by (simp add: init_8)

lemma build_FAH:
  "build 8 Ascii [''F'', ''A'', ''H''] =
     Inr ((projr (init 8))
       \<lparr>hash_table_bin :=
          replicate 20 (CHR 0x00) @ [CHR 0x00, CHR 0x01, CHR 0x00, CHR 0x00] @
          replicate 232 (CHR 0x00) @ [CHR 0x01, CHR 0x01, CHR 0x00, CHR 0x00] @
          [CHR 0x02, CHR 0x01, CHR 0x00, CHR 0x00],
        hash_table := [(''F'', 1), (''A'', 0), (''H'', 2)]\<rparr>)"
proof -
  have l: "line_size_of [''F'', ''A'', ''H''] = 1" by (simp add: line_size_of_def)
  have "process_file (projr (init 8)) Ascii [''F'', ''A'', ''H''] =
     Inr ((projr (init 8))
       \<lparr>hash_table_bin :=
          replicate 20 (CHR 0x00) @ [CHR 0x00, CHR 0x01, CHR 0x00, CHR 0x00] @
          replicate 232 (CHR 0x00) @ [CHR 0x01, CHR 0x01, CHR 0x00, CHR 0x00] @
          [CHR 0x02, CHR 0x01, CHR 0x00, CHR 0x00],
        hash_table := [(''F'', 1), (''A'', 0), (''H'', 2)]\<rparr>)"
    unfolding process_file_def
    by (simp only: ascii_FAH clean_FAH hex_FAH assign_FAH fields_8 write_FAH fill_FAH l
        sum.case if_False not_True_eq_False)
       simp
  then show ?thesis
    by (subst build_def, subst init_8_Inr) (simp only: sum.case)
qed

section \<open>The claims about builds\<close>

theorem perfect_hash_per_polynomial_witness:
  "init 8 = Inr (projr (init 8)) \<and>
   assign_hash_functions (projr (init 8)) [''F'', ''A'', ''H''] =
     Inr [(''A'', (''CRC-8F-3'', 0)), (''F'', (''CRC-8K-3'', 1)), (''H'', (''CRC-8K-3'', 2))] \<and>
   calculate_crc (projr (init 8)) ''F'' ''CRC-8K-3'' = Inr 5 \<and>
   calculate_crc (projr (init 8)) ''H'' ''CRC-8K-3'' = Inr 4 \<and>
   calculate_crc (projr (init 8)) ''F'' ''CRC-8K-3'' \<noteq>
     calculate_crc (projr (init 8)) ''H'' ''CRC-8K-3''"
proof -
  have ne: "''F'' \<noteq> ''H''" by simp
  from perfect_hash_per_polynomial [OF init_8_Inr assign_FAH _ _ ne,
      of "''CRC-8K-3''" 1 2]
  have "calculate_crc (projr (init 8)) ''F'' ''CRC-8K-3'' \<noteq>
     calculate_crc (projr (init 8)) ''H'' ''CRC-8K-3''"
    by auto
  then show ?thesis by (simp add: init_8_Inr [symmetric] assign_FAH masked_crc_8)
qed

theorem dense_ordered_ids_witness:
  "init 8 = Inr (projr (init 8)) \<and>
   assign_hash_functions (projr (init 8)) [''F'', ''A'', ''H''] =
     Inr [(''A'', (''CRC-8F-3'', 0)), (''F'', (''CRC-8K-3'', 1)), (''H'', (''CRC-8K-3'', 2))] \<and>
   snd ` snd ` set [(''A'', (''CRC-8F-3'', 0::nat)), (''F'', (''CRC-8K-3'', 1)), (''H'', (''CRC-8K-3'', 2))] =
     {0..<length [''F'', ''A'', ''H'']} \<and>
   distinct [''F'', ''A'', ''H''] \<and>
   map_of [(''A'', (''CRC-8F-3'', 0::nat)), (''F'', (''CRC-8K-3'', 1)), (''H'', (''CRC-8K-3'', 2))] ''A'' =
     Some (''CRC-8F-3'', 0) \<and>
   map_of [(''A'', (''CRC-8F-3'', 0::nat)), (''F'', (''CRC-8K-3'', 1)), (''H'', (''CRC-8K-3'', 2))] ''F'' =
     Some (''CRC-8K-3'', 1)"
proof -
  note t = dense_ordered_ids [OF init_8_Inr assign_FAH]
  then have "snd ` snd ` set [(''A'', (''CRC-8F-3'', 0::nat)), (''F'', (''CRC-8K-3'', 1)), (''H'', (''CRC-8K-3'', 2))] =
     {0..<length [''F'', ''A'', ''H'']}"
    by blast
  moreover from t have "distinct [''F'', ''A'', ''H'']" by blast
  ultimately show ?thesis using init_8_Inr assign_FAH by simp
qed



lemma clean_AAPL:
  "clean_lines Ascii 0 [''AAPL'', ''AAPL''] [] = Inr [''AAPL'', ''AAPL'']"
  by (simp add: strip_def py_isspace_def Let_def)



lemma init_Inr_projr: "init m = Inr h \<Longrightarrow> init m = Inr (projr (init m))"
  by simp

lemma build_process: "init m = Inr h \<Longrightarrow> build m fmt lines = process_file h fmt lines"
  by (simp add: build_def)

text \<open>
  Claim C4, as amended. The constructor rounds its argument up to a power of two,
  \<open>2 ^ bit_length (m - 1)\<close>, and keeps that as \<open>max_ids\<close>. For a file whose lines pass
  the cleaning loop, the build fails with \<open>TooManySymbols\<close> exactly when the number of
  symbols exceeds the rounded value; a number of symbols up to the argument itself
  always passes the check.
\<close>

theorem too_many_symbols:
  assumes "init m = Inr h" and "list_all is_ascii lines"
    and "clean_lines fmt 0 lines [] = Inr strings"
  shows "(build m fmt lines = Inl TooManySymbols \<longleftrightarrow>
            2 ^ py_bit_length (m - 1) < length strings) \<and>
         max_ids h = 2 ^ py_bit_length (m - 1) \<and>
         m \<le> int (max_ids h) \<and> int (max_ids h) < 2 * m \<and>
         (int (length strings) \<le> m \<longrightarrow> build m fmt lines \<noteq> Inl TooManySymbols)"
proof -
  note F = init_fields [OF assms(1)]
  note R = po2_rounding [OF F(1)]
  have iff: "build m fmt lines = Inl TooManySymbols \<longleftrightarrow>
            2 ^ py_bit_length (m - 1) < length strings"
    using process_file_too_many [OF assms] by (simp add: build_process [OF assms(1)] F(3))
  have le: "m \<le> int (max_ids h)" and lt: "int (max_ids h) < 2 * m"
    using R by (simp_all add: F(3))
  have "build m fmt lines \<noteq> Inl TooManySymbols" if "int (length strings) \<le> m"
  proof -
    from that le have "length strings \<le> max_ids h" by linarith
    then show ?thesis using iff by (simp add: F(3))
  qed
  with iff le lt F(3) show ?thesis by blast
qed

lemma init_1: "init 1 = Inr (projr (init 1))"
proof -
  have "spec_required_bits 1 = 0" by (simp add: spec_required_bits_floorlog compute_floorlog)
  then have "spec_selected_width 1 \<le> 30" by (simp add: spec_selected_width_def)
  from init_ok [OF _ this] show ?thesis by auto
qed

theorem too_many_symbols_witness:
  "init 1 = Inr (projr (init 1)) \<and> list_all is_ascii [''AAPL'', ''AAPL''] \<and>
   clean_lines Ascii 0 [''AAPL'', ''AAPL''] [] = Inr [''AAPL'', ''AAPL''] \<and>
   (2::nat) ^ py_bit_length (1 - 1) = 1 \<and>
   build 1 Ascii [''AAPL'', ''AAPL''] = Inl TooManySymbols"
proof -
  have asc: "list_all is_ascii [''AAPL'', ''AAPL'']" by (simp add: is_ascii_def)
  have bl: "(2::nat) ^ py_bit_length (1 - 1) = 1" by (simp add: py_bit_length_def floorlog_def)
  from too_many_symbols [OF init_1 asc clean_AAPL] bl
  have b: "build 1 Ascii [''AAPL'', ''AAPL''] = Inl TooManySymbols" by simp
  from init_1 asc clean_AAPL bl b show ?thesis by (intro conjI)
qed

text \<open>
  A hasher constructed with 5 keeps the capacity 8: six symbols exceed the argument and
  pass the check.
\<close>

lemma init_5: "init 5 = Inr (projr (init 5))"
proof -
  have "spec_required_bits 5 = 2" by (simp add: spec_required_bits_floorlog compute_floorlog)
  then have "spec_selected_width 5 \<le> 30" by (simp add: spec_selected_width_def)
  from init_ok [OF _ this] show ?thesis by auto
qed

theorem too_many_symbols_counterexample:
  "clean_lines Ascii 0 [''A'', ''B'', ''C'', ''D'', ''E'', ''F''] [] =
     Inr [''A'', ''B'', ''C'', ''D'', ''E'', ''F''] \<and>
   (5::int) < int (length [''A'', ''B'', ''C'', ''D'', ''E'', ''F'']) \<and>
   max_ids (projr (init 5)) = 8 \<and>
   build 5 Ascii [''A'', ''B'', ''C'', ''D'', ''E'', ''F''] \<noteq> Inl TooManySymbols"
proof -
  let ?L = "[''A'', ''B'', ''C'', ''D'', ''E'', ''F'']"
  have cl: "clean_lines Ascii 0 ?L [] = Inr ?L" by (simp add: strip_def py_isspace_def Let_def)
  have asc: "list_all is_ascii ?L" by (simp add: is_ascii_def)
  have "py_bit_length (5 - 1) = 3" by (simp add: py_bit_length_def compute_floorlog)
  with init_fields(3) [OF init_5] have mx: "max_ids (projr (init 5)) = 8" by simp
  from process_file_too_many [OF init_5 asc cl] mx
  have "process_file (projr (init 5)) Ascii ?L \<noteq> Inl TooManySymbols" by simp
  then have "build 5 Ascii ?L \<noteq> Inl TooManySymbols"
    by (simp add: build_process [OF init_5])
  with cl mx show ?thesis by simp
qed

section \<open>The packed table and the addresses that are written\<close>

lemma init_32768: "init 32768 = Inr (projr (init 32768))"
  and width_32768: "crc_width (projr (init 32768)) = 16"
  and table_32768: "length (hash_table_bin (projr (init 32768))) = 1048576"
proof -
  have rb: "spec_required_bits 32768 = 15"
    by (simp add: spec_required_bits_floorlog compute_floorlog)
  then have sw: "spec_selected_width 32768 = 16" by (simp add: spec_selected_width_def)
  from init_ok [of 32768] sw show i: "init 32768 = Inr (projr (init 32768))" by auto
  note F = init_fields [OF i]
  show "crc_width (projr (init 32768)) = 16" using F(4) sw by simp
  have "py_bit_length (32768 - 1) = 15" by (simp add: py_bit_length_def compute_floorlog)
  then have "max_ids (projr (init 32768)) = 32768" using F(3) by simp
  then show "length (hash_table_bin (projr (init 32768))) = 1048576"
    by (simp add: F(10))
qed

text \<open>
  Claim C1. The claim gives the packed table \<open>4 * 8 * 2 ^ crc_width\<close> bytes, eight
  blocks of \<open>2 ^ crc_width\<close> entries, which is the layout the writing loop addresses.
  The constructor allocates \<open>4 * 8 * max_ids\<close> bytes instead: for the argument 8 the
  width is 8 and the table has 256 bytes where the claim has 8192, and building the
  symbols F, A, H leaves a table of 264 bytes, two entries having been appended. For
  the default argument 32768 the width is 16 and the table has 1048576 bytes, which is
  the byte offset at which the block of polynomial index 4 would begin.
\<close>

theorem packed_table_too_small:
  "init 8 = Inr (projr (init 8)) \<and> crc_width (projr (init 8)) = 8 \<and>
   max_ids (projr (init 8)) = 8 \<and>
   length (hash_table_bin (projr (init 8))) = 256 \<and>
   4 * 8 * 2 ^ crc_width (projr (init 8)) = (8192::nat) \<and>
   build 8 Ascii [''F'', ''A'', ''H''] = Inr (projr (build 8 Ascii [''F'', ''A'', ''H''])) \<and>
   length (hash_table_bin (projr (build 8 Ascii [''F'', ''A'', ''H'']))) = 264 \<and>
   init 32768 = Inr (projr (init 32768)) \<and> crc_width (projr (init 32768)) = 16 \<and>
   length (hash_table_bin (projr (init 32768))) = 1048576 \<and>
   4 * nat (push_bit (crc_width (projr (init 32768))) (int 4) OR 0) = 1048576"
proof -
  have a: "crc_width (projr (init 8)) = 8" "max_ids (projr (init 8)) = 8"
    "length (hash_table_bin (projr (init 8))) = 256"
    by (simp_all add: fields_8)
  have b: "4 * 8 * 2 ^ crc_width (projr (init 8)) = (8192::nat)" by (simp add: fields_8)
  have c: "build 8 Ascii [''F'', ''A'', ''H''] = Inr (projr (build 8 Ascii [''F'', ''A'', ''H'']))"
    "length (hash_table_bin (projr (build 8 Ascii [''F'', ''A'', ''H'']))) = 264"
    by (simp_all add: build_FAH)
  have d: "4 * nat (push_bit (crc_width (projr (init 32768))) (int 4) OR 0) = 1048576"
    by (simp add: width_32768 push_bit_eq_mult)
  from init_8_Inr a b c init_32768 width_32768 table_32768 d show ?thesis
    by (intro conjI)
qed

text \<open>
  Claim C2. The build of F, A, H with capacity 8 succeeds and assigns F to the
  polynomial of index 1 with masked CRC 5 and identifier 1, so the claim reads the
  value \<open>1 | (1 << 8)\<close>, the bytes \<open>01 01 00 00\<close>, at byte offset \<open>4 * 261\<close>. The table
  has only 264 bytes and the four bytes read there are empty: the entry was appended
  at the end of the table. The entry of A, polynomial index 0, is read back as the
  claim says.
\<close>

theorem packed_table_round_trip_fails:
  "build 8 Ascii [''F'', ''A'', ''H''] = Inr (projr (build 8 Ascii [''F'', ''A'', ''H''])) \<and>
   assign_hash_functions (projr (init 8)) [''F'', ''A'', ''H''] =
     Inr [(''A'', (''CRC-8F-3'', 0)), (''F'', (''CRC-8K-3'', 1)), (''H'', (''CRC-8K-3'', 2))] \<and>
   get_poly_index ''CRC-8K-3'' = Inr (Some 1) \<and>
   calculate_crc (projr (init 8)) ''F'' ''CRC-8K-3'' = Inr 5 \<and>
   nat (push_bit (crc_width (projr (init 8))) (int 1) OR 5) = 261 \<and>
   to_bytes_little (nat (int 1 OR push_bit (crc_width (projr (init 8))) 1)) 4 =
     Inr [CHR 0x01, CHR 0x01, CHR 0x00, CHR 0x00] \<and>
   length (hash_table_bin (projr (build 8 Ascii [''F'', ''A'', ''H'']))) = 264 \<and>
   slice_get (hash_table_bin (projr (build 8 Ascii [''F'', ''A'', ''H''])))
     (4 * 261) (4 * 261 + 4) = [] \<and>
   get_poly_index ''CRC-8F-3'' = Inr (Some 0) \<and>
   calculate_crc (projr (init 8)) ''A'' ''CRC-8F-3'' = Inr 5 \<and>
   slice_get (hash_table_bin (projr (build 8 Ascii [''F'', ''A'', ''H''])))
     (4 * 5) (4 * 5 + 4) = [CHR 0x00, CHR 0x01, CHR 0x00, CHR 0x00]"
proof -
  let ?t = "hash_table_bin (projr (build 8 Ascii [''F'', ''A'', ''H'']))"
  have c: "build 8 Ascii [''F'', ''A'', ''H''] = Inr (projr (build 8 Ascii [''F'', ''A'', ''H'']))"
    and len: "length ?t = 264"
    by (simp_all add: build_FAH)
  have addr: "nat (push_bit (crc_width (projr (init 8))) (int 1) OR 5) = 261"
    by (simp add: fields_8)
  have bytes: "to_bytes_little (nat (int 1 OR push_bit (crc_width (projr (init 8))) 1)) 4 =
     Inr [CHR 0x01, CHR 0x01, CHR 0x00, CHR 0x00]"
    by (simp add: fields_8 to_bytes_little_def entry_bytes)
  have miss: "slice_get ?t (4 * 261) (4 * 261 + 4) = []"
    by (rule slice_get_beyond) (simp add: len)
  have hit: "slice_get ?t (4 * 5) (4 * 5 + 4) = [CHR 0x00, CHR 0x01, CHR 0x00, CHR 0x00]"
    by (simp add: build_FAH slice_get_def slice_bounds_def Let_def)
  from c assign_FAH poly_index_8(2) masked_crc_8(4) addr bytes len miss poly_index_8(1)
    masked_crc_8(2) hit
  show ?thesis by (intro conjI)
qed

text \<open>
  A successful run of \<open>process_file\<close> has cleaned the lines, passed the count check and
  obtained the assignment of the normalized symbols from \<open>assign_hash_functions\<close>,
  one normalized symbol per input symbol.
\<close>

lemma process_file_success:
  assumes "process_file h fmt lines = Inr h'"
  shows "\<exists>strings S asg.
           clean_lines fmt 0 lines [] = Inr strings \<and> length strings \<le> max_ids h \<and>
           hex_strings_of fmt strings = Inr S \<and> length S = length strings \<and>
           assign_hash_functions h S = Inr asg"
proof -
  from assms obtain strings where s: "clean_lines fmt 0 lines [] = Inr strings"
    "length strings \<le> max_ids h"
    by (auto simp: process_file_def split: if_splits sum.splits)
  obtain S where S: "hex_strings_of fmt strings = Inr S" "length S = length strings"
    using hex_strings_of_total by blast
  from assms s S obtain asg where "assign_hash_functions h S = Inr asg"
    by (auto simp: process_file_def split: if_splits sum.splits)
  with s S show ?thesis by blast
qed

end
